theory Spec2Isabelle
  imports Complex_Main "HOL-Library.AList" "HOL-Library.Sublist"
begin

section \<open>Python strings\<close>

text \<open>
  A Python \<open>str\<close> is modelled as a \<open>string\<close> whose characters are the code points
  0 to 255. On that range \<open>str.strip()\<close> removes the code points 9 to 13, 28 to 32,
  133 and 160, and \<open>str.lower()\<close> adds 32 to the code points 65 to 90 and 192 to 222
  (215 excepted) and leaves the others alone. Code points above 255 are outside the model.
\<close>

definition py_isspace :: "char \<Rightarrow> bool" where
  "py_isspace c =
     (let n = (of_char c :: nat)
      in (9 \<le> n \<and> n \<le> 13) \<or> (28 \<le> n \<and> n \<le> 32) \<or> n = 133 \<or> n = 160)"

definition py_lower_char :: "char \<Rightarrow> char" where
  "py_lower_char c =
     (let n = (of_char c :: nat)
      in if (65 \<le> n \<and> n \<le> 90) \<or> (192 \<le> n \<and> n \<le> 222 \<and> n \<noteq> 215)
         then char_of (n + 32) else c)"

definition py_lower :: "string \<Rightarrow> string" where
  "py_lower s = map py_lower_char s"

definition py_strip :: "string \<Rightarrow> string" where
  "py_strip s = rev (dropWhile py_isspace (rev (dropWhile py_isspace s)))"

text \<open>\<open>s.lstrip("0")\<close> and \<open>s.rstrip("/")\<close>.\<close>

definition py_lstrip_zero :: "string \<Rightarrow> string" where
  "py_lstrip_zero s = dropWhile (\<lambda>c. c = CHR ''0'') s"

definition py_rstrip_slash :: "string \<Rightarrow> string" where
  "py_rstrip_slash s = rev (dropWhile (\<lambda>c. c = CHR ''/'') (rev s))"

section \<open>JSON values and the Python operations applied to them\<close>

text \<open>
  What \<open>response.json()\<close> returns: \<open>None\<close>, a bool, an int, a float (a finite one, as
  a rational), a str, a list or a dict with string keys (an association list, read with
  \<open>map_of\<close>).
\<close>

datatype json =
    JNull
  | JBool bool
  | JInt int
  | JFloat rat
  | JStr string
  | JArr "json list"
  | JObj "(string \<times> json) list"

datatype exn =
    AttributeError
  | TypeError
  | KeyError
  | IndexError
  | JSONDecodeError
  | RequestError

text \<open>The truth value Python gives a JSON value in \<open>if not x\<close>.\<close>

fun truthy :: "json \<Rightarrow> bool" where
  "truthy JNull = False"
| "truthy (JBool b) = b"
| "truthy (JInt i) = (i \<noteq> 0)"
| "truthy (JFloat r) = (r \<noteq> 0)"
| "truthy (JStr s) = (s \<noteq> [])"
| "truthy (JArr xs) = (xs \<noteq> [])"
| "truthy (JObj kvs) = (kvs \<noteq> [])"

text \<open>\<open>d.get(k, dflt)\<close> on a dict; \<open>d.get(k)\<close> is \<open>obj_get d k JNull\<close>.\<close>

definition obj_get :: "(string \<times> json) list \<Rightarrow> string \<Rightarrow> json \<Rightarrow> json" where
  "obj_get kvs k dflt = (case map_of kvs k of Some v \<Rightarrow> v | None \<Rightarrow> dflt)"

text \<open>\<open>x.get(k, dflt)\<close> on any value: only a dict has the method.\<close>

fun py_get :: "json \<Rightarrow> string \<Rightarrow> json \<Rightarrow> exn + json" where
  "py_get (JObj kvs) k dflt = Inr (obj_get kvs k dflt)"
| "py_get _ k dflt = Inl AttributeError"

text \<open>
  \<open>for x in v\<close>: a list gives its elements, a str its characters, a dict its keys;
  nothing else is iterable.
\<close>

fun py_iter :: "json \<Rightarrow> exn + json list" where
  "py_iter (JArr xs) = Inr xs"
| "py_iter (JStr s) = Inr (map (\<lambda>c. JStr [c]) s)"
| "py_iter (JObj kvs) = Inr (map (\<lambda>kv. JStr (fst kv)) kvs)"
| "py_iter _ = Inl TypeError"

text \<open>\<open>v[0]\<close>; a dict parsed from JSON has no key \<open>0\<close>.\<close>

fun py_first :: "json \<Rightarrow> exn + json" where
  "py_first (JArr []) = Inl IndexError"
| "py_first (JArr (x # xs)) = Inr x"
| "py_first (JStr []) = Inl IndexError"
| "py_first (JStr (c # s)) = Inr (JStr [c])"
| "py_first (JObj kvs) = Inl KeyError"
| "py_first _ = Inl TypeError"

text \<open>
  \<open>str(v)\<close>, also what an f-string writes for \<open>{v}\<close>. A str is itself; the text Python
  writes for the other values is the parameter \<open>fmt\<close>.
\<close>

fun py_str :: "(json \<Rightarrow> string) \<Rightarrow> json \<Rightarrow> string" where
  "py_str fmt (JStr s) = s"
| "py_str fmt v = fmt v"

section \<open>\<open>ShopifyCatalogIndexer\<close>\<close>

record variant_data =
  vd_sku :: json
  vd_product_id :: json
  vd_variant_id :: json
  vd_handle :: json
  vd_title :: json
  vd_variant_title :: json
  vd_name :: json
  vd_price :: json
  vd_rrp :: json
  vd_available :: json
  vd_product_type :: json
  vd_published_at :: json
  vd_image_url :: json
  vd_product_url :: string

text \<open>
  \<open>self.catalog\<close> is a Python dict: an association list in insertion order, written with
  \<open>AList.update\<close> (a new key goes to the end, an old key keeps its place) and read with
  \<open>map_of\<close>.
\<close>

type_synonym catalog_dict = "(string \<times> variant_data) list"

record indexer =
  base_url :: string
  products_url :: string
  catalog :: catalog_dict
  indexed :: bool

definition init_indexer :: "string \<Rightarrow> indexer" where
  "init_indexer url =
     (let b = py_rstrip_slash url
      in \<lparr>base_url = b, products_url = b @ ''/products.json'', catalog = [], indexed = False\<rparr>)"

text \<open>The product's fields that \<open>_index_product\<close> reads before its loop.\<close>

record product_fields =
  pf_product_id :: json
  pf_handle :: json
  pf_title :: json
  pf_product_type :: json
  pf_published_at :: json
  pf_main_image :: json

text \<open>Lines 79 to 82: the key under which a truthy \<open>sku\<close> is stored.\<close>

definition index_sku_key :: "(json \<Rightarrow> string) \<Rightarrow> json \<Rightarrow> string" where
  "index_sku_key fmt sku =
     (let sku_str = py_lower (py_strip (py_str fmt sku));
          sku_key = py_lstrip_zero sku_str
      in if sku_key = [] then sku_str else sku_key)"

text \<open>Lines 85 to 100: the record stored for a variant (a dict \<open>v\<close>) of a product.\<close>

definition make_variant_data ::
  "(json \<Rightarrow> string) \<Rightarrow> string \<Rightarrow> product_fields \<Rightarrow> (string \<times> json) list \<Rightarrow> variant_data" where
  "make_variant_data fmt base pf v =
     \<lparr>vd_sku = obj_get v ''sku'' JNull,
      vd_product_id = pf_product_id pf,
      vd_variant_id = obj_get v ''id'' JNull,
      vd_handle = pf_handle pf,
      vd_title = pf_title pf,
      vd_variant_title = obj_get v ''title'' JNull,
      vd_name =
        (if obj_get v ''title'' JNull \<noteq> JStr ''Default Title''
         then JStr (py_str fmt (pf_title pf) @ '' - '' @ py_str fmt (obj_get v ''title'' JNull))
         else pf_title pf),
      vd_price = obj_get v ''price'' JNull,
      vd_rrp = obj_get v ''compare_at_price'' JNull,
      vd_available = obj_get v ''available'' JNull,
      vd_product_type = pf_product_type pf,
      vd_published_at = pf_published_at pf,
      vd_image_url = pf_main_image pf,
      vd_product_url =
        base @ ''/products/'' @ py_str fmt (pf_handle pf) @ ''?variant=''
          @ py_str fmt (obj_get v ''id'' JNull)\<rparr>"

text \<open>
  The loop over the variants (lines 71 to 103). A variant that is not a dict raises at
  \<open>variant.get("sku")\<close>; what was stored before stays stored.
\<close>

fun index_variants ::
  "(json \<Rightarrow> string) \<Rightarrow> string \<Rightarrow> product_fields \<Rightarrow> json list \<Rightarrow> catalog_dict
     \<Rightarrow> exn option \<times> catalog_dict" where
  "index_variants fmt base pf [] cat = (None, cat)"
| "index_variants fmt base pf (variant # rest) cat =
     (case variant of
        JObj v \<Rightarrow>
          if \<not> truthy (obj_get v ''sku'' JNull) then index_variants fmt base pf rest cat
          else index_variants fmt base pf rest
                 (AList.update (index_sku_key fmt (obj_get v ''sku'' JNull))
                    (make_variant_data fmt base pf v) cat)
      | _ \<Rightarrow> (Some AttributeError, cat))"

text \<open>Lines 66 and 67: \<open>images[0].get("src") if images else None\<close>.\<close>

definition main_image_of :: "json \<Rightarrow> exn + json" where
  "main_image_of images =
     (if truthy images
      then (case py_first images of Inl e \<Rightarrow> Inl e | Inr img \<Rightarrow> py_get img ''src'' JNull)
      else Inr JNull)"

text \<open>Lines 59 to 63, with the main image of line 67.\<close>

definition read_product_fields :: "(string \<times> json) list \<Rightarrow> json \<Rightarrow> product_fields" where
  "read_product_fields p main_image =
     \<lparr>pf_product_id = obj_get p ''id'' JNull,
      pf_handle = obj_get p ''handle'' JNull,
      pf_title = obj_get p ''title'' JNull,
      pf_product_type = obj_get p ''product_type'' JNull,
      pf_published_at = obj_get p ''published_at'' JNull,
      pf_main_image = main_image\<rparr>"

text \<open>
  \<open>_index_product\<close>. A product that is not a dict raises at \<open>product.get("id")\<close>, before
  anything is stored.
\<close>

definition index_product ::
  "(json \<Rightarrow> string) \<Rightarrow> string \<Rightarrow> json \<Rightarrow> catalog_dict \<Rightarrow> exn option \<times> catalog_dict" where
  "index_product fmt base product cat =
     (case product of
        JObj p \<Rightarrow>
          (case main_image_of (obj_get p ''images'' (JArr [])) of
             Inl e \<Rightarrow> (Some e, cat)
           | Inr main_image \<Rightarrow>
               (case py_iter (obj_get p ''variants'' (JArr [])) of
                  Inl e \<Rightarrow> (Some e, cat)
                | Inr variants \<Rightarrow>
                    index_variants fmt base (read_product_fields p main_image) variants cat))
      | _ \<Rightarrow> (Some AttributeError, cat))"

text \<open>Lines 41 and 42: \<open>for product in products: self._index_product(product)\<close>.\<close>

fun index_products ::
  "(json \<Rightarrow> string) \<Rightarrow> string \<Rightarrow> json list \<Rightarrow> catalog_dict \<Rightarrow> exn option \<times> catalog_dict" where
  "index_products fmt base [] cat = (None, cat)"
| "index_products fmt base (product # rest) cat =
     (case index_product fmt base product cat of
        (Some e, cat') \<Rightarrow> (Some e, cat')
      | (None, cat') \<Rightarrow> index_products fmt base rest cat')"

subsection \<open>\<open>fetch_catalog\<close>\<close>

text \<open>
  The feed is the environment: \<open>feed p\<close> is what \<open>client.get\<close> does on the request for
  page \<open>p\<close>. \<open>None\<close>: it raises. \<open>Some (Response code body)\<close>: it returns a response with
  that status code, whose \<open>json()\<close> raises (\<open>None\<close>) or returns a value. The delay between
  pages is not modelled.
\<close>

datatype response = Response int "json option"

type_synonym feed = "nat \<Rightarrow> response option"

text \<open>How one run of the loop body ends.\<close>

datatype page_result =
    Continue
  | EndOfFeed
  | BadStatus int
  | Caught exn

text \<open>
  Lines 30 to 39, which do not touch the catalog: the truthy \<open>products\<close> value, or the
  reason the loop is left.
\<close>

definition read_page :: "response option \<Rightarrow> page_result + json" where
  "read_page r =
     (case r of
        None \<Rightarrow> Inl (Caught RequestError)
      | Some (Response status_code body) \<Rightarrow>
          if status_code \<noteq> 200 then Inl (BadStatus status_code)
          else (case body of
                  None \<Rightarrow> Inl (Caught JSONDecodeError)
                | Some data \<Rightarrow>
                    (case py_get data ''products'' (JArr []) of
                       Inl e \<Rightarrow> Inl (Caught e)
                     | Inr products \<Rightarrow>
                         if \<not> truthy products then Inl EndOfFeed else Inr products)))"

text \<open>The whole body of the \<open>try\<close> (lines 27 to 46) with its \<open>except\<close>.\<close>

definition fetch_page ::
  "(json \<Rightarrow> string) \<Rightarrow> response option \<Rightarrow> indexer \<Rightarrow> page_result \<times> indexer" where
  "fetch_page fmt r idx =
     (case read_page r of
        Inl stop \<Rightarrow> (stop, idx)
      | Inr products \<Rightarrow>
          (case py_iter products of
             Inl e \<Rightarrow> (Caught e, idx)
           | Inr ps \<Rightarrow>
               (case index_products fmt (base_url idx) ps (catalog idx) of
                  (Some e, cat') \<Rightarrow> (Caught e, idx\<lparr>catalog := cat'\<rparr>)
                | (None, cat') \<Rightarrow> (Continue, idx\<lparr>catalog := cat'\<rparr>))))"

text \<open>
  The \<open>while True\<close> loop. It can run for ever, so its result is optional. \<open>fetched\<close> is the
  list of the pages requested so far.
\<close>

partial_function (option) fetch_loop ::
  "(json \<Rightarrow> string) \<Rightarrow> feed \<Rightarrow> nat \<Rightarrow> nat \<Rightarrow> nat list \<Rightarrow> indexer
     \<Rightarrow> (nat \<times> nat list \<times> indexer) option" where
  "fetch_loop fmt fd page total_skus fetched idx =
     (case fetch_page fmt (fd page) idx of
        (Continue, idx') \<Rightarrow>
          fetch_loop fmt fd (page + 1) (length (catalog idx')) (fetched @ [page]) idx'
      | (_, idx') \<Rightarrow> Some (total_skus, fetched @ [page], idx'))"

text \<open>The result: the count returned, the pages requested, the indexer afterwards.\<close>

definition fetch_catalog ::
  "(json \<Rightarrow> string) \<Rightarrow> feed \<Rightarrow> indexer \<Rightarrow> (nat \<times> nat list \<times> indexer) option" where
  "fetch_catalog fmt fd idx =
     (case fetch_loop fmt fd 1 0 [] idx of
        None \<Rightarrow> None
      | Some (total_skus, fetched, idx') \<Rightarrow> Some (total_skus, fetched, idx'\<lparr>indexed := True\<rparr>))"

subsection \<open>\<open>lookup_sku\<close>\<close>

text \<open>Lines 114 to 117.\<close>

definition lookup_sku_key :: "string \<Rightarrow> string" where
  "lookup_sku_key sku =
     (let sku_str = py_lower (py_strip sku);
          sku_key = py_lstrip_zero sku_str
      in if sku_key = [] then sku_str else sku_key)"

definition lookup_sku :: "indexer \<Rightarrow> string \<Rightarrow> variant_data option" where
  "lookup_sku idx sku =
     (if \<not> indexed idx then None
      else map_of (catalog idx) (lookup_sku_key sku))"

section \<open>\<open>_normalise_rows\<close>\<close>

text \<open>
  A row is a \<open>Dict[str, Optional[str]]\<close>: an association list from column names to
  values. \<open>r.get(k)\<close> is \<open>None\<close> for a missing key and for a key bound to \<open>None\<close>.
\<close>

type_synonym row = "(string \<times> string option) list"

record item =
  item_sku :: "string option"
  item_url :: "string option"

definition row_get :: "row \<Rightarrow> string \<Rightarrow> string option" where
  "row_get r k = (case map_of r k of Some v \<Rightarrow> v | None \<Rightarrow> None)"

definition str_truthy :: "string option \<Rightarrow> bool" where
  "str_truthy v = (case v of None \<Rightarrow> False | Some s \<Rightarrow> s \<noteq> [])"

text \<open>\<open>a or b\<close> where both are optional strings, and \<open>a or b\<close> where \<open>b\<close> is a string.\<close>

definition py_or :: "string option \<Rightarrow> string option \<Rightarrow> string option" where
  "py_or a b = (if str_truthy a then a else b)"

definition py_or_str :: "string option \<Rightarrow> string \<Rightarrow> string" where
  "py_or_str a b = (case a of None \<Rightarrow> b | Some s \<Rightarrow> if s = [] then b else s)"

text \<open>Lines 28 and 29: \<open>(r.get(K) or r.get(k) or "").strip() or None\<close>.\<close>

definition read_field :: "row \<Rightarrow> string \<Rightarrow> string \<Rightarrow> string option" where
  "read_field r upper_name lower_name =
     (let stripped = py_strip (py_or_str (py_or (row_get r upper_name) (row_get r lower_name)) [])
      in if stripped = [] then None else Some stripped)"

text \<open>Line 34: \<open>(sku or "").lower(), (url or "").lower()\<close>.\<close>

definition dedup_key :: "string option \<Rightarrow> string option \<Rightarrow> string \<times> string" where
  "dedup_key sku url = (py_lower (py_or_str sku []), py_lower (py_or_str url []))"

text \<open>The loop of lines 26 to 38, with its two accumulators \<open>seen\<close> and \<open>out\<close>.\<close>

fun normalise_loop :: "row list \<Rightarrow> (string \<times> string) set \<Rightarrow> item list \<Rightarrow> item list" where
  "normalise_loop [] seen out = out"
| "normalise_loop (r # rows) seen out =
     (let sku = read_field r ''SKU'' ''sku'';
          url = read_field r ''URL'' ''url''
      in if \<not> str_truthy sku \<and> \<not> str_truthy url then normalise_loop rows seen out
         else let key = dedup_key sku url
              in if key \<in> seen then normalise_loop rows seen out
                 else normalise_loop rows (insert key seen)
                        (out @ [\<lparr>item_sku = sku, item_url = url\<rparr>]))"

definition normalise_rows :: "row list \<Rightarrow> item list" where
  "normalise_rows rows = normalise_loop rows {} []"

section \<open>The specification's notions\<close>

subsection \<open>The normalized SKU key\<close>

text \<open>
  The data model's NormalizedSkuKey is derived by trimming whitespace, lowercasing and
  stripping the leading zero characters. The two character notions it relies on, stated on
  code points 0 to 255: the whitespace characters are the ASCII controls 9 to 13 and 28 to
  31, the space, NEXT LINE (133) and NO-BREAK SPACE (160); the letters that have a
  lowercase form are A to Z and the Latin-1 capitals 192 to 222 (215, the multiplication
  sign, is no letter), whose lowercase form lies 32 code points higher.
\<close>

definition whitespace_code :: "nat \<Rightarrow> bool" where
  "whitespace_code n = (n \<in> {9, 10, 11, 12, 13, 28, 29, 30, 31, 32, 133, 160})"

definition lowercase_code :: "nat \<Rightarrow> nat" where
  "lowercase_code n = (if n \<in> {65..90} \<union> {192..214} \<union> {216..222} then n + 32 else n)"

definition lowercase :: "string \<Rightarrow> string" where
  "lowercase s = map (\<lambda>c. char_of (lowercase_code (of_char c))) s"

subsection \<open>Items and their identity key\<close>

text \<open>The item a row stands for, and whether it has an identifier at all.\<close>

definition row_item :: "row \<Rightarrow> item" where
  "row_item r = \<lparr>item_sku = read_field r ''SKU'' ''sku'', item_url = read_field r ''URL'' ''url''\<rparr>"

definition has_identifier :: "item \<Rightarrow> bool" where
  "has_identifier it = (item_sku it \<noteq> None \<or> item_url it \<noteq> None)"

text \<open>The identity key of the data model: \<open>(lowercase(sku) or "", lowercase(url) or "")\<close>.\<close>

definition item_key :: "item \<Rightarrow> string \<times> string" where
  "item_key it =
     (case item_sku it of None \<Rightarrow> [] | Some s \<Rightarrow> lowercase s,
      case item_url it of None \<Rightarrow> [] | Some u \<Rightarrow> lowercase u)"

text \<open>Keeping the first occurrence of each key, in the order of the first occurrences.\<close>

fun first_occurrences :: "('a \<Rightarrow> 'k) \<Rightarrow> 'a list \<Rightarrow> 'a list" where
  "first_occurrences key [] = []"
| "first_occurrences key (x # xs) =
     x # first_occurrences key (filter (\<lambda>y. key y \<noteq> key x) xs)"

text \<open>A field is blank in a row when the row has no value for it or only whitespace.\<close>

definition blank_value :: "string option \<Rightarrow> bool" where
  "blank_value v =
     (case v of None \<Rightarrow> True | Some s \<Rightarrow> list_all (\<lambda>c. whitespace_code (of_char c)) s)"

definition blank_row :: "row \<Rightarrow> bool" where
  "blank_row r =
     (blank_value (row_get r ''SKU'') \<and> blank_value (row_get r ''sku'') \<and>
      blank_value (row_get r ''URL'') \<and> blank_value (row_get r ''url''))"

subsection \<open>Feeds\<close>

text \<open>
  A product that \<open>_index_product\<close> reads without raising: a dict whose \<open>images\<close> is
  missing, falsy or a list that starts with a dict, and whose \<open>variants\<close> is missing or
  iterates over dicts only.
\<close>

fun is_obj :: "json \<Rightarrow> bool" where
  "is_obj (JObj kvs) = True"
| "is_obj _ = False"

definition images_ok :: "json \<Rightarrow> bool" where
  "images_ok images =
     (\<not> truthy images \<or> (case images of JArr (img # imgs) \<Rightarrow> is_obj img | _ \<Rightarrow> False))"

definition variants_ok :: "json \<Rightarrow> bool" where
  "variants_ok variants =
     (case py_iter variants of Inl e \<Rightarrow> False | Inr vs \<Rightarrow> list_all is_obj vs)"

definition well_formed_product :: "json \<Rightarrow> bool" where
  "well_formed_product product =
     (case product of
        JObj p \<Rightarrow> images_ok (obj_get p ''images'' (JArr []))
                  \<and> variants_ok (obj_get p ''variants'' (JArr []))
      | _ \<Rightarrow> False)"

text \<open>The \<open>products\<close> value of a page answered with status 200 and a dict.\<close>

definition page_products :: "response option \<Rightarrow> json option" where
  "page_products r =
     (case r of
        Some (Response status_code (Some (JObj data))) \<Rightarrow>
          if status_code = 200 then Some (obj_get data ''products'' (JArr [])) else None
      | _ \<Rightarrow> None)"

text \<open>A non-empty page: its \<open>products\<close> is a non-empty list of well-formed products.\<close>

definition nonempty_page :: "response option \<Rightarrow> bool" where
  "nonempty_page r =
     (case page_products r of
        Some (JArr ps) \<Rightarrow> ps \<noteq> [] \<and> list_all well_formed_product ps
      | _ \<Rightarrow> False)"

text \<open>
  An empty page: answered with status 200 and a dict that has no \<open>products\<close> key, or an
  empty list or another falsy value under it.
\<close>

definition empty_page :: "response option \<Rightarrow> bool" where
  "empty_page r = (case page_products r of Some products \<Rightarrow> \<not> truthy products | None \<Rightarrow> False)"

text \<open>
  A failing page: the request raises, the status is not 200, the body is not JSON or not a
  dict, or \<open>products\<close> is truthy and not a list of well-formed products.
\<close>

definition fails_at_fetch :: "response option \<Rightarrow> bool" where
  "fails_at_fetch r = (page_products r = None)"

definition fails_at_indexing :: "response option \<Rightarrow> bool" where
  "fails_at_indexing r =
     (case page_products r of
        None \<Rightarrow> False
      | Some (JArr ps) \<Rightarrow> \<not> list_all well_formed_product ps
      | Some products \<Rightarrow> truthy products)"

definition page_fails :: "response option \<Rightarrow> bool" where
  "page_fails r = (fails_at_fetch r \<or> fails_at_indexing r)"

text \<open>
  The variants that \<open>_index_product\<close> reaches in a product, each with the fields of the
  product: none when the product is not a dict or its \<open>images\<close> or \<open>variants\<close> cannot be
  read, otherwise the variants before the first one that is not a dict (all of them in a
  well-formed product).
\<close>

definition product_variants :: "json \<Rightarrow> (product_fields \<times> (string \<times> json) list) list" where
  "product_variants product =
     (case product of
        JObj p \<Rightarrow>
          (case (main_image_of (obj_get p ''images'' (JArr [])),
                 py_iter (obj_get p ''variants'' (JArr []))) of
             (Inr main_image, Inr vs) \<Rightarrow>
               concat (map (\<lambda>variant. case variant of
                                         JObj v \<Rightarrow> [(read_product_fields p main_image, v)]
                                       | _ \<Rightarrow> [])
                         (takeWhile is_obj vs))
           | _ \<Rightarrow> [])
      | _ \<Rightarrow> [])"

text \<open>
  The variants reached in a list of products, in the order in which they are processed:
  those of the products up to and including the first one that is not well formed.
\<close>

fun products_variants :: "json list \<Rightarrow> (product_fields \<times> (string \<times> json) list) list" where
  "products_variants [] = []"
| "products_variants (product # rest) =
     product_variants product
       @ (if well_formed_product product then products_variants rest else [])"

text \<open>The variants reached in a page, and in the pages 1 to \<open>k\<close> of a feed.\<close>

definition page_variants :: "response option \<Rightarrow> (product_fields \<times> (string \<times> json) list) list" where
  "page_variants r =
     (case page_products r of
        Some products \<Rightarrow> (case py_iter products of Inr ps \<Rightarrow> products_variants ps | Inl e \<Rightarrow> [])
      | None \<Rightarrow> [])"

definition feed_variants :: "feed \<Rightarrow> nat \<Rightarrow> (product_fields \<times> (string \<times> json) list) list" where
  "feed_variants fd k = concat (map (\<lambda>p. page_variants (fd p)) [1..<Suc k])"

text \<open>A variant carries a SKU when its \<open>sku\<close> is truthy.\<close>

definition has_sku :: "product_fields \<times> (string \<times> json) list \<Rightarrow> bool" where
  "has_sku pv = truthy (obj_get (snd pv) ''sku'' JNull)"

text \<open>The key and the record of a variant; the entries of the variants that carry a SKU.\<close>

definition variant_entry ::
  "(json \<Rightarrow> string) \<Rightarrow> string \<Rightarrow> product_fields \<times> (string \<times> json) list \<Rightarrow> string \<times> variant_data" where
  "variant_entry fmt base pv =
     (index_sku_key fmt (obj_get (snd pv) ''sku'' JNull), make_variant_data fmt base (fst pv) (snd pv))"

definition entries_of ::
  "(json \<Rightarrow> string) \<Rightarrow> string \<Rightarrow> (product_fields \<times> (string \<times> json) list) list
     \<Rightarrow> (string \<times> variant_data) list" where
  "entries_of fmt base pvs = map (variant_entry fmt base) (filter has_sku pvs)"

definition feed_entries ::
  "(json \<Rightarrow> string) \<Rightarrow> string \<Rightarrow> feed \<Rightarrow> nat \<Rightarrow> (string \<times> variant_data) list" where
  "feed_entries fmt base fd k = entries_of fmt base (feed_variants fd k)"

text \<open>Storing entries one after the other.\<close>

definition store_entries :: "(string \<times> variant_data) list \<Rightarrow> catalog_dict \<Rightarrow> catalog_dict" where
  "store_entries es cat = foldl (\<lambda>c e. AList.update (fst e) (snd e) c) cat es"

text \<open>The record of the last entry stored under a key.\<close>

definition last_with_key :: "string \<Rightarrow> (string \<times> variant_data) list \<Rightarrow> variant_data option" where
  "last_with_key key es = map_option snd (find (\<lambda>e. fst e = key) (rev es))"

subsection \<open>Example data\<close>

text \<open>The text written for \<open>None\<close>; the examples format no other value that is not a str.\<close>

definition example_fmt :: "json \<Rightarrow> string" where
  "example_fmt v = ''None''"

text \<open>
  The record stored for the variant with the SKU \<open>sku\<close> of a product that has only the
  title \<open>title\<close> and its variants, in a shop at \<open>https://shop.example\<close>: Python writes
  \<open>None\<close> for the missing variant title, handle and variant id.
\<close>

definition example_record :: "string \<Rightarrow> string \<Rightarrow> variant_data" where
  "example_record title sku =
     \<lparr>vd_sku = JStr sku, vd_product_id = JNull, vd_variant_id = JNull, vd_handle = JNull,
      vd_title = JStr title, vd_variant_title = JNull, vd_name = JStr (title @ '' - None''),
      vd_price = JNull, vd_rrp = JNull, vd_available = JNull, vd_product_type = JNull,
      vd_published_at = JNull, vd_image_url = JNull,
      vd_product_url = ''https://shop.example/products/None?variant=None''\<rparr>"

text \<open>An indexer of that shop with a given catalog and \<open>indexed\<close> flag.\<close>

definition example_indexer :: "catalog_dict \<Rightarrow> bool \<Rightarrow> indexer" where
  "example_indexer cat done =
     \<lparr>base_url = ''https://shop.example'', products_url = ''https://shop.example/products.json'',
      catalog = cat, indexed = done\<rparr>"

text \<open>
  The end-to-end scenario: page 1 has one product with the variant \<open>ABC-1\<close>, page 2 one
  product with the variant \<open>073302\<close>, page 3 is empty.
\<close>

definition example_feed :: feed where
  "example_feed p =
     (if p = 1 then
        Some (Response 200 (Some (JObj [(''products'',
          JArr [JObj [(''title'', JStr ''Widget''),
                      (''variants'', JArr [JObj [(''sku'', JStr ''ABC-1'')]])]])])))
      else if p = 2 then
        Some (Response 200 (Some (JObj [(''products'',
          JArr [JObj [(''title'', JStr ''Gadget''),
                      (''variants'', JArr [JObj [(''sku'', JStr ''073302'')]])]])])))
      else Some (Response 200 (Some (JObj [(''products'', JArr [])]))))"




text \<open>
  A feed in which two raw SKUs have the same key: \<open>073302\<close> on page 1, \<open>73302\<close> on
  page 2; page 3 is empty.
\<close>

definition collision_feed :: feed where
  "collision_feed p =
     (if p = 1 then
        Some (Response 200 (Some (JObj [(''products'',
          JArr [JObj [(''title'', JStr ''Widget''),
                      (''variants'', JArr [JObj [(''sku'', JStr ''073302'')]])]])])))
      else if p = 2 then
        Some (Response 200 (Some (JObj [(''products'',
          JArr [JObj [(''title'', JStr ''Gadget''),
                      (''variants'', JArr [JObj [(''sku'', JStr ''73302'')]])]])])))
      else Some (Response 200 (Some (JObj []))))"

section \<open>Properties of the string operations\<close>

lemma of_char_lower:
  "(of_char (py_lower_char c) :: nat) =
     (let n = (of_char c :: nat)
      in if (65 \<le> n \<and> n \<le> 90) \<or> (192 \<le> n \<and> n \<le> 222 \<and> n \<noteq> 215) then n + 32 else n)"
  by (auto simp: py_lower_char_def Let_def)

lemma char_zero_iff: "c = CHR ''0'' \<longleftrightarrow> (of_char c :: nat) = 48"
proof -
  have "(of_char (CHR ''0'') :: nat) = 48" by simp
  then show ?thesis by (metis of_char_eq_iff)
qed

lemma lower_zero: "py_lower_char c = CHR ''0'' \<longleftrightarrow> c = CHR ''0''"
  unfolding char_zero_iff of_char_lower by (auto simp: Let_def)

lemma lower_space: "py_isspace (py_lower_char c) = py_isspace c"
  unfolding py_isspace_def of_char_lower by (auto simp: Let_def)

lemma lower_idem: "py_lower_char (py_lower_char c) = py_lower_char c"
proof -
  have "(of_char (py_lower_char (py_lower_char c)) :: nat) = of_char (py_lower_char c)"
    unfolding of_char_lower[of "py_lower_char c"] unfolding of_char_lower by (auto simp: Let_def)
  then show ?thesis by (simp only: of_char_eq_iff)
qed

lemma zero_not_space: "\<not> py_isspace CHR ''0''"
  by (simp add: py_isspace_def)

lemma py_lower_idem: "py_lower (py_lower s) = py_lower s"
  by (simp add: py_lower_def lower_idem)

lemma py_lower_Nil_iff: "py_lower s = [] \<longleftrightarrow> s = []"
  by (simp add: py_lower_def)

lemma length_py_lower: "length (py_lower s) = length s"
  by (simp add: py_lower_def)

lemma lstrip_zero_lower: "py_lstrip_zero (py_lower s) = py_lower (py_lstrip_zero s)"
  by (induction s) (auto simp: py_lstrip_zero_def py_lower_def lower_zero)

lemma lstrip_zero_idem: "py_lstrip_zero (py_lstrip_zero s) = py_lstrip_zero s"
  by (simp add: py_lstrip_zero_def dropWhile_idem)

lemma length_lstrip_zero: "length (py_lstrip_zero s) \<le> length s"
  by (simp add: py_lstrip_zero_def length_dropWhile_le)

lemma length_py_strip: "length (py_strip s) \<le> length s"
proof -
  have "length (py_strip s) \<le> length (dropWhile py_isspace s)"
    unfolding py_strip_def by (metis length_rev length_dropWhile_le)
  also have "\<dots> \<le> length s" by (rule length_dropWhile_le)
  finally show ?thesis .
qed

text \<open>Removing from the right leaves the head alone when something remains.\<close>

lemma rstrip_unchanged:
  assumes "xs \<noteq> []" "\<not> P (last xs)"
  shows "rev (dropWhile P (rev xs)) = xs"
proof -
  from assms have "rev xs \<noteq> []" "\<not> P (hd (rev xs))" by (simp_all add: hd_rev)
  then have "dropWhile P (rev xs) = rev xs" by (cases "rev xs") auto
  then show ?thesis by simp
qed

lemma py_strip_unchanged:
  assumes "s \<noteq> []" "\<not> py_isspace (hd s)" "\<not> py_isspace (last s)"
  shows "py_strip s = s"
proof -
  from assms have "dropWhile py_isspace s = s" by (cases s) auto
  with assms show ?thesis by (simp add: py_strip_def rstrip_unchanged)
qed

lemma rstrip_last:
  assumes "rev (dropWhile P (rev xs)) \<noteq> []"
  shows "\<not> P (last (rev (dropWhile P (rev xs))))"
  using assms by (simp add: last_rev hd_dropWhile)

lemma rstrip_hd:
  assumes "xs \<noteq> []" "\<not> P (hd xs)"
  shows "rev (dropWhile P (rev xs)) \<noteq> [] \<and> hd (rev (dropWhile P (rev xs))) = hd xs"
proof -
  obtain x ys where xs: "xs = x # ys" using assms by (cases xs) auto
  with assms have "\<not> P x" by simp
  then have "dropWhile P (rev ys @ [x]) = dropWhile P (rev ys) @ [x]"
    by (simp add: dropWhile_append3)
  then show ?thesis by (simp add: xs)
qed

lemma py_strip_ends:
  assumes "py_strip s \<noteq> []"
  shows "\<not> py_isspace (hd (py_strip s))" and "\<not> py_isspace (last (py_strip s))"
proof -
  let ?d = "dropWhile py_isspace s"
  have "?d = [] \<Longrightarrow> py_strip s = []"
    unfolding py_strip_def by (simp only: rev.simps dropWhile.simps)
  with assms have d: "?d \<noteq> []" by blast
  then have h: "\<not> py_isspace (hd ?d)" by (rule hd_dropWhile)
  from rstrip_hd[of ?d py_isspace, OF d h] show "\<not> py_isspace (hd (py_strip s))"
    using h by (simp add: py_strip_def)
  from assms show "\<not> py_isspace (last (py_strip s))"
    unfolding py_strip_def by (rule rstrip_last)
qed

lemma py_strip_idem: "py_strip (py_strip s) = py_strip s"
proof (cases "py_strip s = []")
  case True
  have "py_strip [] = []" by (simp add: py_strip_def)
  then show ?thesis by (simp only: True)
next
  case False
  then show ?thesis by (simp add: py_strip_unchanged py_strip_ends)
qed

lemma py_strip_lower: "py_strip (py_lower s) = py_lower (py_strip s)"
proof -
  have comp: "py_isspace \<circ> py_lower_char = py_isspace" by (auto simp: lower_space)
  show ?thesis
    by (simp add: py_strip_def py_lower_def dropWhile_map rev_map comp)
qed

section \<open>Properties of the SKU key\<close>

lemma rstrip_split:
  assumes "\<exists>x\<in>set xs. \<not> P x"
  shows "rev (dropWhile P (rev xs)) = takeWhile P xs @ rev (dropWhile P (rev (dropWhile P xs)))"
proof -
  let ?tw = "takeWhile P xs" and ?dw = "dropWhile P xs"
  from assms have "?dw \<noteq> []" by (simp add: dropWhile_eq_Nil_conv)
  then have "\<not> P (hd ?dw)" by (rule hd_dropWhile)
  with \<open>?dw \<noteq> []\<close> have ex: "\<exists>x\<in>set (rev ?dw). \<not> P x"
    by (metis hd_in_set set_rev)
  have "rev xs = rev ?dw @ rev ?tw" by (metis rev_append takeWhile_dropWhile_id)
  then have "dropWhile P (rev xs) = dropWhile P (rev ?dw) @ rev ?tw"
    using ex by (auto simp: dropWhile_append)
  then show ?thesis by simp
qed

lemma rstrip_all:
  assumes "\<forall>x\<in>set xs. P x"
  shows "rev (dropWhile P (rev xs)) = []"
  using assms by simp

lemma lower_zeros:
  assumes "\<forall>c\<in>set z. c = CHR ''0''"
  shows "py_lower z = z"
  using assms by (induction z) (auto simp: py_lower_def lower_zero)

lemma lstrip_zero_prefix:
  assumes "\<forall>c\<in>set z. c = CHR ''0''"
  shows "py_lstrip_zero (z @ x) = py_lstrip_zero x"
  using assms by (simp add: py_lstrip_zero_def dropWhile_append)

lemma strip_zero_prefix:
  assumes "z \<noteq> []" "\<forall>c\<in>set z. c = CHR ''0''"
  shows "py_strip (z @ r) = z @ rev (dropWhile py_isspace (rev r))"
proof -
  from assms have hz: "hd z = CHR ''0''" "last z = CHR ''0''" by auto
  with assms have "dropWhile py_isspace (z @ r) = z @ r"
    by (cases z) (auto simp: zero_not_space)
  moreover have "dropWhile py_isspace (rev z) = rev z"
    using assms hz by (cases "rev z") (auto simp: zero_not_space)
  then have "dropWhile py_isspace (rev r @ rev z) = dropWhile py_isspace (rev r) @ rev z"
    by (auto simp: dropWhile_append)
  ultimately show ?thesis by (simp add: py_strip_def)
qed

lemma key_length: "length (lookup_sku_key x) \<le> length (py_strip x)"
proof -
  have "length (py_lstrip_zero (py_lower (py_strip x))) \<le> length (py_strip x)"
    by (metis length_lstrip_zero length_py_lower)
  then show ?thesis by (simp add: lookup_sku_key_def Let_def length_py_lower)
qed

lemma key_lowered: "py_lower (lookup_sku_key x) = lookup_sku_key x"
  by (simp add: lookup_sku_key_def Let_def py_lower_idem lstrip_zero_lower)

lemma key_last:
  assumes "lookup_sku_key x \<noteq> []"
  shows "\<not> py_isspace (last (lookup_sku_key x))"
proof -
  let ?t = "py_lower (py_strip x)"
  from assms have t: "?t \<noteq> []"
    by (auto simp: lookup_sku_key_def Let_def py_lstrip_zero_def split: if_splits)
  then have s: "py_strip x \<noteq> []" by (simp add: py_lower_Nil_iff)
  have "last ?t = py_lower_char (last (py_strip x))"
    using s by (simp add: py_lower_def last_map)
  then have lt: "\<not> py_isspace (last ?t)" using py_strip_ends(2)[OF s] by (simp add: lower_space)
  show ?thesis
  proof (cases "py_lstrip_zero ?t = []")
    case True
    then show ?thesis using lt by (simp add: lookup_sku_key_def Let_def)
  next
    case False
    then have "last (py_lstrip_zero ?t) = last ?t"
      unfolding py_lstrip_zero_def by (metis last_appendR takeWhile_dropWhile_id)
    with False lt show ?thesis by (simp add: lookup_sku_key_def Let_def)
  qed
qed

lemma key_fixed:
  assumes "k = lookup_sku_key x" "k = [] \<or> \<not> py_isspace (hd k)"
  shows "lookup_sku_key k = k"
proof (cases "k = []")
  case True
  then show ?thesis by (simp add: lookup_sku_key_def py_lower_def py_strip_def py_lstrip_zero_def)
next
  case False
  with assms have "\<not> py_isspace (hd k)" by simp
  moreover have "\<not> py_isspace (last k)" using False assms(1) key_last by simp
  ultimately have st: "py_strip k = k" using False by (simp add: py_strip_unchanged)
  have lo: "py_lower k = k" using assms(1) key_lowered by simp
  have unfold: "lookup_sku_key k = (if py_lstrip_zero k = [] then k else py_lstrip_zero k)"
    unfolding lookup_sku_key_def Let_def st lo ..
  let ?t = "py_lower (py_strip x)"
  have k: "k = (if py_lstrip_zero ?t = [] then ?t else py_lstrip_zero ?t)"
    using assms(1) unfolding lookup_sku_key_def Let_def .
  show ?thesis
  proof (cases "py_lstrip_zero ?t = []")
    case True
    with k have "k = ?t" by simp
    with True have "py_lstrip_zero k = []" by simp
    with unfold show ?thesis by simp
  next
    case F: False
    with k have "k = py_lstrip_zero ?t" by simp
    then have "py_lstrip_zero k = k" by (metis lstrip_zero_idem)
    with unfold show ?thesis by simp
  qed
qed

lemma key_moves:
  assumes "k \<noteq> []" "py_isspace (hd k)"
  shows "length (lookup_sku_key k) < length k"
proof -
  obtain c cs where k: "k = c # cs" using assms by (cases k) auto
  with assms have "py_isspace c" by simp
  then have "length (dropWhile py_isspace k) \<le> length cs"
    by (simp add: k length_dropWhile_le)
  moreover have "length (py_strip k) \<le> length (dropWhile py_isspace k)"
    unfolding py_strip_def by (metis length_rev length_dropWhile_le)
  ultimately show ?thesis using key_length[of k] by (simp add: k)
qed

lemma normalize_idem_iff:
  "lookup_sku_key (lookup_sku_key s) = lookup_sku_key s
     \<longleftrightarrow> (lookup_sku_key s = [] \<or> \<not> py_isspace (hd (lookup_sku_key s)))"
proof
  assume eq: "lookup_sku_key (lookup_sku_key s) = lookup_sku_key s"
  show "lookup_sku_key s = [] \<or> \<not> py_isspace (hd (lookup_sku_key s))"
  proof (rule ccontr)
    assume "\<not> ?thesis"
    then have "length (lookup_sku_key (lookup_sku_key s)) < length (lookup_sku_key s)"
      by (simp add: key_moves)
    with eq show False by simp
  qed
next
  assume "lookup_sku_key s = [] \<or> \<not> py_isspace (hd (lookup_sku_key s))"
  then show "lookup_sku_key (lookup_sku_key s) = lookup_sku_key s"
    using key_fixed[OF refl] by blast
qed

lemma zeros_split:
  assumes "py_lstrip_zero s \<noteq> s"
  obtains z where "z \<noteq> []" "\<forall>c\<in>set z. c = CHR ''0''" "s = z @ py_lstrip_zero s"
proof -
  let ?z = "takeWhile (\<lambda>c. c = CHR ''0'') s"
  have s: "s = ?z @ py_lstrip_zero s" by (simp add: py_lstrip_zero_def)
  with assms have "?z \<noteq> []" by auto
  moreover have "\<forall>c\<in>set ?z. c = CHR ''0''" by (auto dest: set_takeWhileD)
  ultimately show ?thesis using s that by blast
qed

lemma key_zero_prefix_good:
  assumes z: "z \<noteq> []" "\<forall>c\<in>set z. c = CHR ''0''"
    and r: "r \<noteq> []" "\<not> py_isspace (hd r)" "hd r \<noteq> CHR ''0''"
  shows "lookup_sku_key (z @ r) = lookup_sku_key r"
proof -
  let ?rs = "rev (dropWhile py_isspace (rev r))"
  have "dropWhile py_isspace r = r" using r by (cases r) auto
  then have sr: "py_strip r = ?rs" by (simp add: py_strip_def)
  have sz: "py_strip (z @ r) = z @ ?rs" using z by (rule strip_zero_prefix)
  have lz: "py_lower (z @ ?rs) = z @ py_lower ?rs"
    using lower_zeros[OF z(2)] by (simp add: py_lower_def)
  have ne: "?rs \<noteq> []" "hd ?rs = hd r" using rstrip_hd[of r py_isspace] r by auto
  then have "hd (py_lower ?rs) \<noteq> CHR ''0''" using r(3)
    by (simp add: py_lower_def hd_map lower_zero)
  moreover have lne: "py_lower ?rs \<noteq> []" using ne(1) by (simp only: py_lower_Nil_iff not_False_eq_True)
  ultimately have fx: "py_lstrip_zero (py_lower ?rs) = py_lower ?rs"
    by (cases "py_lower ?rs") (auto simp: py_lstrip_zero_def)
  have "lookup_sku_key r = py_lower ?rs"
    unfolding lookup_sku_key_def Let_def sr fx using lne by simp
  moreover have "py_lstrip_zero (z @ py_lower ?rs) = py_lower ?rs"
    using lstrip_zero_prefix[OF z(2)] fx by simp
  then have "lookup_sku_key (z @ r) = py_lower ?rs"
    unfolding lookup_sku_key_def Let_def sz lz using lne by simp
  ultimately show ?thesis by simp
qed

lemma key_zero_prefix_bad:
  assumes z: "z \<noteq> []" "\<forall>c\<in>set z. c = CHR ''0''"
    and r: "r = [] \<or> py_isspace (hd r)"
  shows "length (lookup_sku_key r) < length (lookup_sku_key (z @ r))"
proof -
  let ?rs = "rev (dropWhile py_isspace (rev r))"
  have sz: "py_strip (z @ r) = z @ ?rs" using z by (rule strip_zero_prefix)
  have lz: "py_lower (z @ ?rs) = z @ py_lower ?rs"
    using lower_zeros[OF z(2)] by (simp add: py_lower_def)
  have kz: "lookup_sku_key (z @ r) =
          (if py_lstrip_zero (py_lower ?rs) = [] then z @ py_lower ?rs else py_lstrip_zero (py_lower ?rs))"
    using z(2) by (simp add: lookup_sku_key_def Let_def sz lz lstrip_zero_prefix)
  show ?thesis
  proof (cases "\<forall>x\<in>set r. py_isspace x")
    case True
    then have "?rs = []" by simp
    moreover from True have "dropWhile py_isspace r = []" by simp
    then have "py_strip r = []" unfolding py_strip_def by (simp only: rev.simps dropWhile.simps)
    then have "length (lookup_sku_key r) = 0" using key_length[of r] by simp
    ultimately show ?thesis using z(1) kz by (simp add: py_lower_def py_lstrip_zero_def)
  next
    case False
    then have ex: "\<exists>x\<in>set r. \<not> py_isspace x" by blast
    then have "r \<noteq> []" by auto
    with r have sp: "py_isspace (hd r)" by simp
    have split: "?rs = takeWhile py_isspace r @ py_strip r"
      using rstrip_split[OF ex] by (simp add: py_strip_def)
    from \<open>r \<noteq> []\<close> sp have tw: "takeWhile py_isspace r \<noteq> []" by (cases r) auto
    then have "hd ?rs = hd r"
      using split by (metis hd_append2 hd_Cons_tl takeWhile.simps(2) list.sel(1) sp \<open>r \<noteq> []\<close>)
    with sp have "py_isspace (hd ?rs)" by simp
    moreover have rsne: "?rs \<noteq> []" using split tw by simp
    ultimately have "hd (py_lower ?rs) \<noteq> CHR ''0''"
      by (metis hd_map lower_space py_lower_def zero_not_space)
    then have fx: "py_lstrip_zero (py_lower ?rs) = py_lower ?rs"
      using rsne by (cases "py_lower ?rs") (auto simp: py_lstrip_zero_def py_lower_def)
    have lne: "py_lower ?rs \<noteq> []" using rsne by (simp only: py_lower_Nil_iff not_False_eq_True)
    have "lookup_sku_key (z @ r) = py_lower ?rs"
      using kz[unfolded fx] lne by (simp only: if_False)
    then have "length (lookup_sku_key (z @ r)) = length (takeWhile py_isspace r) + length (py_strip r)"
      using split by (metis length_append length_py_lower)
    moreover have "0 < length (takeWhile py_isspace r)" using tw by blast
    ultimately show ?thesis using key_length[of r] by linarith
  qed
qed

lemma normalize_leading_zeros_iff:
  "lookup_sku_key s = lookup_sku_key (py_lstrip_zero s)
     \<longleftrightarrow> (py_lstrip_zero s = s
          \<or> (py_lstrip_zero s \<noteq> [] \<and> \<not> py_isspace (hd (py_lstrip_zero s))))"
proof (cases "py_lstrip_zero s = s")
  case True
  then show ?thesis by (simp only: refl simp_thms)
next
  case False
  then obtain z where z: "z \<noteq> []" "\<forall>c\<in>set z. c = CHR ''0''" "s = z @ py_lstrip_zero s"
    by (rule zeros_split)
  define r where "r = py_lstrip_zero s"
  have eq: "lookup_sku_key s = lookup_sku_key (z @ r)"
    using z(3) unfolding r_def by (rule arg_cong)
  have nz: "r \<noteq> [] \<Longrightarrow> hd r \<noteq> CHR ''0''"
    using hd_dropWhile[of "\<lambda>c. c = CHR ''0''" s] unfolding r_def py_lstrip_zero_def by blast
  have "lookup_sku_key (z @ r) = lookup_sku_key r \<longleftrightarrow> (r \<noteq> [] \<and> \<not> py_isspace (hd r))"
  proof (cases "r \<noteq> [] \<and> \<not> py_isspace (hd r)")
    case True
    then have "lookup_sku_key (z @ r) = lookup_sku_key r"
      using key_zero_prefix_good[OF z(1) z(2), of r] nz by blast
    with True show ?thesis by blast
  next
    case F: False
    then have "r = [] \<or> py_isspace (hd r)" by blast
    then have "length (lookup_sku_key r) < length (lookup_sku_key (z @ r))"
      using key_zero_prefix_bad[OF z(1) z(2), of r] by blast
    then have "lookup_sku_key (z @ r) \<noteq> lookup_sku_key r" by auto
    with F show ?thesis by blast
  qed
  then have "lookup_sku_key s = lookup_sku_key r \<longleftrightarrow> (r \<noteq> [] \<and> \<not> py_isspace (hd r))"
    by (simp only: eq)
  moreover have "r \<noteq> s" using False by (simp only: r_def not_False_eq_True)
  ultimately show ?thesis unfolding r_def[symmetric] by blast
qed

section \<open>The derivation of the SKU key\<close>

lemma isspace_code: "py_isspace c = whitespace_code (of_char c)"
  unfolding py_isspace_def whitespace_code_def Let_def by (simp; arith)

lemma lower_code: "(of_char (py_lower_char c) :: nat) = lowercase_code (of_char c)"
  unfolding of_char_lower lowercase_code_def Let_def by (simp; arith)

lemma isspace_code_fun: "py_isspace = (\<lambda>c. whitespace_code (of_char c))"
  by (rule ext) (rule isspace_code)

lemma py_lower_lowercase: "py_lower s = lowercase s"
proof -
  have "py_lower_char c = char_of (lowercase_code (of_char c))" for c
  proof -
    have "char_of (of_char (py_lower_char c) :: nat) = py_lower_char c" by simp
    then show ?thesis by (simp only: lower_code)
  qed
  then show ?thesis by (simp add: py_lower_def lowercase_def)
qed

lemma strip_split:
  "s = takeWhile P s @ rev (dropWhile P (rev (dropWhile P s)))
         @ rev (takeWhile P (rev (dropWhile P s)))"
proof -
  let ?d = "dropWhile P s"
  have "rev ?d = takeWhile P (rev ?d) @ dropWhile P (rev ?d)" by simp
  then have "rev (rev ?d) = rev (takeWhile P (rev ?d) @ dropWhile P (rev ?d))"
    by (rule arg_cong)
  then have "?d = rev (dropWhile P (rev ?d)) @ rev (takeWhile P (rev ?d))"
    by (simp only: rev_rev_ident rev_append)
  moreover have "s = takeWhile P s @ ?d" by simp
  ultimately show ?thesis by metis
qed

lemma py_strip_split:
  "s = takeWhile py_isspace s @ py_strip s
         @ rev (takeWhile py_isspace (rev (dropWhile py_isspace s)))"
  unfolding py_strip_def by (rule strip_split)

lemma key_derivation:
  "\<exists>lead core trail zeros rest.
      raw = lead @ core @ trail
    \<and> list_all (\<lambda>c. whitespace_code (of_char c)) lead
    \<and> list_all (\<lambda>c. whitespace_code (of_char c)) trail
    \<and> (core \<noteq> [] \<longrightarrow> \<not> whitespace_code (of_char (hd core))
                       \<and> \<not> whitespace_code (of_char (last core)))
    \<and> map of_char (zeros @ rest) = map (\<lambda>c. lowercase_code (of_char c)) core
    \<and> list_all (\<lambda>c. c = CHR ''0'') zeros
    \<and> (rest \<noteq> [] \<longrightarrow> hd rest \<noteq> CHR ''0'')
    \<and> lookup_sku_key raw = (if rest = [] then zeros else rest)"
proof -
  let ?lead = "takeWhile py_isspace raw"
  let ?core = "py_strip raw"
  let ?trail = "rev (takeWhile py_isspace (rev (dropWhile py_isspace raw)))"
  let ?low = "py_lower ?core"
  let ?zeros = "takeWhile (\<lambda>c. c = CHR ''0'') ?low"
  let ?rest = "py_lstrip_zero ?low"
  have 1: "raw = ?lead @ ?core @ ?trail" by (rule py_strip_split)
  have 2: "list_all (\<lambda>c. whitespace_code (of_char c)) ?lead"
    unfolding isspace_code[symmetric] list_all_iff by (metis set_takeWhileD)
  have 3: "list_all (\<lambda>c. whitespace_code (of_char c)) ?trail"
    unfolding isspace_code[symmetric] list_all_iff by (metis set_takeWhileD set_rev)
  have 4: "?core \<noteq> [] \<longrightarrow> \<not> whitespace_code (of_char (hd ?core))
                       \<and> \<not> whitespace_code (of_char (last ?core))"
    unfolding isspace_code[symmetric] using py_strip_ends[of raw] by blast
  have split: "?zeros @ ?rest = ?low" unfolding py_lstrip_zero_def by simp
  have "map of_char (?zeros @ ?rest) = (map of_char ?low :: nat list)"
    by (simp only: split)
  also have "\<dots> = map (\<lambda>c. lowercase_code (of_char c)) ?core"
    by (simp add: py_lower_def lower_code)
  finally have 5: "(map of_char (?zeros @ ?rest) :: nat list)
                     = map (\<lambda>c. lowercase_code (of_char c)) ?core" .
  have 6: "list_all (\<lambda>c. c = CHR ''0'') ?zeros"
    unfolding list_all_iff by (metis set_takeWhileD)
  have 7: "?rest \<noteq> [] \<longrightarrow> hd ?rest \<noteq> CHR ''0''"
    unfolding py_lstrip_zero_def using hd_dropWhile[of "\<lambda>c. c = CHR ''0''" ?low] by blast
  have z: "?rest = [] \<Longrightarrow> ?zeros = ?low" using split by simp
  have 8: "lookup_sku_key raw = (if ?rest = [] then ?zeros else ?rest)"
    by (simp add: lookup_sku_key_def Let_def z)
  from 1 2 3 4 5 6 7 8 show ?thesis by blast
qed

lemma strip_unique:
  assumes "list_all py_isspace lead" "list_all py_isspace trail"
    and "core \<noteq> [] \<longrightarrow> \<not> py_isspace (hd core) \<and> \<not> py_isspace (last core)"
  shows "py_strip (lead @ core @ trail) = core"
proof -
  from assms(1) have d: "dropWhile py_isspace (lead @ core @ trail) = dropWhile py_isspace (core @ trail)"
    by (simp add: list_all_iff dropWhile_append2)
  have t: "dropWhile py_isspace (rev trail) = []"
    using assms(2) by (simp add: list_all_iff)
  show ?thesis
  proof (cases "core = []")
    case True
    with assms(2) have "dropWhile py_isspace (core @ trail) = []" by (simp add: list_all_iff)
    with d have "dropWhile py_isspace (lead @ core @ trail) = []" by (simp only:)
    then have "py_strip (lead @ core @ trail) = []"
      unfolding py_strip_def by (simp only: rev.simps dropWhile.simps)
    with True show ?thesis by (simp only:)
  next
    case False
    with assms(3) have h: "\<not> py_isspace (hd core)" and l: "\<not> py_isspace (last core)" by blast+
    from False h have "dropWhile py_isspace (core @ trail) = core @ trail"
      by (cases core) auto
    with d have d': "dropWhile py_isspace (lead @ core @ trail) = core @ trail" by (simp only:)
    have "\<And>x. x \<in> set (rev trail) \<Longrightarrow> py_isspace x"
      using assms(2) by (simp add: list_all_iff)
    then have "dropWhile py_isspace (rev trail @ rev core) = dropWhile py_isspace (rev core)"
      by (rule dropWhile_append2)
    moreover have "rev (dropWhile py_isspace (rev core)) = core"
      using False l by (rule rstrip_unchanged)
    ultimately show ?thesis unfolding py_strip_def d' by (simp only: rev_append rev_rev_ident)
  qed
qed

lemma lower_unique:
  assumes "(map of_char low :: nat list) = map (\<lambda>c. lowercase_code (of_char c)) core"
  shows "low = py_lower core"
proof -
  have "(map of_char (py_lower core) :: nat list) = map (\<lambda>c. lowercase_code (of_char c)) core"
    by (simp add: py_lower_def lower_code)
  with assms have "(map of_char low :: nat list) = map of_char (py_lower core)" by (simp only:)
  moreover have "inj (of_char :: char \<Rightarrow> nat)" by (rule injI) simp
  ultimately show ?thesis by (simp only: inj_map_eq_map)
qed

lemma zeros_unique:
  assumes "list_all (\<lambda>c. c = CHR ''0'') zeros" "rest \<noteq> [] \<longrightarrow> hd rest \<noteq> CHR ''0''"
  shows "py_lstrip_zero (zeros @ rest) = rest"
proof -
  from assms(1) have "dropWhile (\<lambda>c. c = CHR ''0'') (zeros @ rest) = dropWhile (\<lambda>c. c = CHR ''0'') rest"
    by (simp add: list_all_iff dropWhile_append2)
  moreover from assms(2) have "dropWhile (\<lambda>c. c = CHR ''0'') rest = rest" by (cases rest) auto
  ultimately show ?thesis by (simp only: py_lstrip_zero_def)
qed

lemma key_unique:
  assumes "raw = lead @ core @ trail"
    and "list_all (\<lambda>c. whitespace_code (of_char c)) lead"
    and "list_all (\<lambda>c. whitespace_code (of_char c)) trail"
    and "core \<noteq> [] \<longrightarrow> \<not> whitespace_code (of_char (hd core))
                       \<and> \<not> whitespace_code (of_char (last core))"
    and "map of_char (zeros @ rest) = map (\<lambda>c. lowercase_code (of_char c)) core"
    and "list_all (\<lambda>c. c = CHR ''0'') zeros"
    and "rest \<noteq> [] \<longrightarrow> hd rest \<noteq> CHR ''0''"
  shows "lookup_sku_key raw = (if rest = [] then zeros else rest)"
proof -
  have "py_strip raw = core"
    unfolding assms(1) using assms(2,3,4) unfolding isspace_code[symmetric] by (rule strip_unique)
  moreover have "zeros @ rest = py_lower core" using assms(5) by (rule lower_unique)
  moreover have "py_lstrip_zero (zeros @ rest) = rest" using assms(6,7) by (rule zeros_unique)
  ultimately have "py_lstrip_zero (py_lower (py_strip raw)) = rest"
    and "py_lower (py_strip raw) = zeros @ rest" by (simp_all only:)
  then show ?thesis by (simp add: lookup_sku_key_def Let_def)
qed

section \<open>The SKU key: claims\<close>

lemma index_key_str: "index_sku_key fmt (JStr s) = lookup_sku_key s"
  by (simp add: index_sku_key_def lookup_sku_key_def)

lemmas str_defs = lookup_sku_key_def py_lower_def py_strip_def py_lstrip_zero_def
  py_isspace_def py_lower_char_def

text \<open>
  Claim C5. The key computed at indexing time is the key \<open>lookup_sku\<close> computes for the
  text of the SKU, and a string is the key of a raw SKU exactly when it is obtained as
  follows: the raw SKU is a run of whitespace, a core that neither begins nor ends with
  whitespace, and a run of whitespace; the core, lowercased character by character, is a run
  of zero characters followed by a rest that does not begin with a zero; the key is the rest,
  or the run of zeros (the whole lowercased core) when the rest is empty.
\<close>

theorem sku_key_normalization:
  "index_sku_key fmt sku = lookup_sku_key (py_str fmt sku)
   \<and> (lookup_sku_key raw = key
      \<longleftrightarrow> (\<exists>lead core trail zeros rest.
              raw = lead @ core @ trail
            \<and> list_all (\<lambda>c. whitespace_code (of_char c)) lead
            \<and> list_all (\<lambda>c. whitespace_code (of_char c)) trail
            \<and> (core \<noteq> [] \<longrightarrow> \<not> whitespace_code (of_char (hd core))
                               \<and> \<not> whitespace_code (of_char (last core)))
            \<and> map of_char (zeros @ rest) = map (\<lambda>c. lowercase_code (of_char c)) core
            \<and> list_all (\<lambda>c. c = CHR ''0'') zeros
            \<and> (rest \<noteq> [] \<longrightarrow> hd rest \<noteq> CHR ''0'')
            \<and> key = (if rest = [] then zeros else rest)))"
proof
  show "index_sku_key fmt sku = lookup_sku_key (py_str fmt sku)"
    by (simp add: index_sku_key_def lookup_sku_key_def)
  show "lookup_sku_key raw = key
      \<longleftrightarrow> (\<exists>lead core trail zeros rest.
              raw = lead @ core @ trail
            \<and> list_all (\<lambda>c. whitespace_code (of_char c)) lead
            \<and> list_all (\<lambda>c. whitespace_code (of_char c)) trail
            \<and> (core \<noteq> [] \<longrightarrow> \<not> whitespace_code (of_char (hd core))
                               \<and> \<not> whitespace_code (of_char (last core)))
            \<and> map of_char (zeros @ rest) = map (\<lambda>c. lowercase_code (of_char c)) core
            \<and> list_all (\<lambda>c. c = CHR ''0'') zeros
            \<and> (rest \<noteq> [] \<longrightarrow> hd rest \<noteq> CHR ''0'')
            \<and> key = (if rest = [] then zeros else rest))"
    (is "?lhs \<longleftrightarrow> ?rhs")
  proof
    assume ?lhs
    with key_derivation[of raw] show ?rhs by (simp only:)
  next
    assume ?rhs
    then obtain lead core trail zeros rest where
      "raw = lead @ core @ trail"
      "list_all (\<lambda>c. whitespace_code (of_char c)) lead"
      "list_all (\<lambda>c. whitespace_code (of_char c)) trail"
      "core \<noteq> [] \<longrightarrow> \<not> whitespace_code (of_char (hd core))
                               \<and> \<not> whitespace_code (of_char (last core))"
      "map of_char (zeros @ rest) = map (\<lambda>c. lowercase_code (of_char c)) core"
      "list_all (\<lambda>c. c = CHR ''0'') zeros"
      "rest \<noteq> [] \<longrightarrow> hd rest \<noteq> CHR ''0''"
      and k: "key = (if rest = [] then zeros else rest)"
      by blast
    note d = this(1-7)
    have "lookup_sku_key raw = (if rest = [] then zeros else rest)" by (rule key_unique[OF d])
    with k show ?lhs by (simp only:)
  qed
qed

theorem sku_key_normalization_witness:
  "index_sku_key example_fmt (JStr ''073302'') = ''73302''
   \<and> lookup_sku_key '' 00AbC-1  '' = ''abc-1''"
proof -
  have i: "index_sku_key example_fmt (JStr ''073302'') = ''73302''"
    by (simp add: index_sku_key_def str_defs)
  have k: "lookup_sku_key '' 00AbC-1  '' = ''abc-1''" by code_simp
  from sku_key_normalization[of example_fmt "JStr ''073302''" "'' 00AbC-1  ''" "''abc-1''"] i k
  show ?thesis by simp
qed

text \<open>
  Claim C2, as stated, fails: the SKU \<open>0\<close> keeps its zero (the fallback), while the SKU with
  its leading zeros removed is empty and has the empty key.
\<close>

theorem leading_zeros_counterexample:
  "lookup_sku_key ''0'' \<noteq> lookup_sku_key (py_lstrip_zero ''0'')"
  by (simp add: str_defs)

text \<open>
  Claim C2, amended. A SKU and the SKU with its leading zeros removed have the same key
  exactly when the SKU has no leading zero, or what follows the leading zeros is not empty
  and does not begin with whitespace. The same holds for the key computed at indexing time.
\<close>

theorem leading_zeros_same_key:
  "(lookup_sku_key s = lookup_sku_key (py_lstrip_zero s)
      \<longleftrightarrow> (py_lstrip_zero s = s
           \<or> (py_lstrip_zero s \<noteq> [] \<and> \<not> py_isspace (hd (py_lstrip_zero s)))))
   \<and> (index_sku_key fmt (JStr s) = index_sku_key fmt (JStr (py_lstrip_zero s))
      \<longleftrightarrow> (py_lstrip_zero s = s
           \<or> (py_lstrip_zero s \<noteq> [] \<and> \<not> py_isspace (hd (py_lstrip_zero s)))))"
  unfolding index_key_str using normalize_leading_zeros_iff[of s] by blast

theorem leading_zeros_same_key_witness:
  "lookup_sku_key ''073302'' = lookup_sku_key (py_lstrip_zero ''073302'')
   \<and> py_lstrip_zero ''073302'' = ''73302''
   \<and> \<not> py_isspace (hd (py_lstrip_zero ''073302''))"
  using leading_zeros_same_key[of "''073302''"]
  by (simp add: py_lstrip_zero_def py_isspace_def)

text \<open>
  Claim C10, as stated, fails: the key of \<open>0 7\<close> is \<open> 7\<close> with a leading space (the zero is
  stripped after the trimming), and the key of that key is \<open>7\<close>.
\<close>

theorem idempotence_counterexample:
  "lookup_sku_key (lookup_sku_key ''0 7'') \<noteq> lookup_sku_key ''0 7''"
  by (simp add: str_defs)

text \<open>
  Claim C10, amended. Normalizing a key again gives the same key exactly when the key is
  empty or does not begin with whitespace.
\<close>

theorem normalize_key_idempotent_iff:
  "lookup_sku_key (lookup_sku_key s) = lookup_sku_key s
     \<longleftrightarrow> (lookup_sku_key s = [] \<or> \<not> py_isspace (hd (lookup_sku_key s)))"
  by (rule normalize_idem_iff)

theorem normalize_key_idempotent_iff_witness:
  "lookup_sku_key ''073302'' = ''73302''
   \<and> \<not> py_isspace (hd ''73302'')
   \<and> lookup_sku_key (lookup_sku_key ''073302'') = lookup_sku_key ''073302''"
proof -
  have k: "lookup_sku_key ''073302'' = ''73302''" by (simp add: str_defs)
  have h: "\<not> py_isspace (hd ''73302'')" by (simp add: py_isspace_def)
  from normalize_key_idempotent_iff[of "''073302''"] k h show ?thesis by simp
qed

text \<open>
  Claim C7. On an indexer as \<open>__init__\<close> leaves it, \<open>lookup_sku\<close> returns \<open>None\<close> for every
  SKU; the model has no error branch there.
\<close>

theorem lookup_before_fetch: "lookup_sku (init_indexer url) sku = None"
  by (simp add: lookup_sku_def init_indexer_def Let_def)

lemmas row_defs = normalise_rows_def read_field_def row_get_def py_or_def py_or_str_def
  str_truthy_def dedup_key_def py_strip_def py_isspace_def py_lower_def py_lower_char_def

text \<open>
  Claim C8. The row \<open>{"Sku": "ABC-1"}\<close> yields no item: only the spellings \<open>SKU\<close> and
  \<open>sku\<close> (and \<open>URL\<close>, \<open>url\<close>) are read, although the comment at line 27 announces a
  case-insensitive lookup.
\<close>

theorem mixed_case_field_name_dropped:
  "normalise_rows [[(''Sku'', Some ''ABC-1'')]] = []
   \<and> normalise_rows [[(''SKU'', Some ''ABC-1'')]] = [\<lparr>item_sku = Some ''ABC-1'', item_url = None\<rparr>]
   \<and> normalise_rows [[(''sku'', Some ''ABC-1'')]] = [\<lparr>item_sku = Some ''ABC-1'', item_url = None\<rparr>]"
  by (simp add: row_defs)

section \<open>Deduplication in \<open>_normalise_rows\<close>\<close>

lemma read_field_truthy: "str_truthy (read_field r a b) \<longleftrightarrow> read_field r a b \<noteq> None"
  by (simp add: read_field_def Let_def str_truthy_def)

lemma read_field_nonempty: "read_field r a b \<noteq> Some []"
  by (simp add: read_field_def Let_def)

lemma dedup_key_item_key:
  "dedup_key (read_field r ''SKU'' ''sku'') (read_field r ''URL'' ''url'') = item_key (row_item r)"
  by (auto simp: dedup_key_def item_key_def row_item_def py_or_str_def py_lower_lowercase
      lowercase_def split: option.splits)

lemma identifier_iff:
  "has_identifier (row_item r)
     \<longleftrightarrow> \<not> (\<not> str_truthy (read_field r ''SKU'' ''sku'') \<and> \<not> str_truthy (read_field r ''URL'' ''url''))"
  by (simp add: has_identifier_def row_item_def read_field_truthy)

lemma normalise_loop_step:
  "normalise_loop (r # rows) seen out =
     (if \<not> has_identifier (row_item r) then normalise_loop rows seen out
      else if item_key (row_item r) \<in> seen then normalise_loop rows seen out
      else normalise_loop rows (insert (item_key (row_item r)) seen) (out @ [row_item r]))"
  unfolding identifier_iff
  by (simp add: Let_def dedup_key_item_key) (simp add: row_item_def)

lemma normalise_loop_spec:
  "normalise_loop rows seen out =
     out @ first_occurrences item_key
             (filter (\<lambda>i. item_key i \<notin> seen) (filter has_identifier (map row_item rows)))"
proof (induction rows arbitrary: seen out)
  case Nil
  then show ?case by simp
next
  case (Cons r rows)
  let ?items = "filter has_identifier (map row_item rows)"
  let ?k = "item_key (row_item r)"
  have flt: "filter (\<lambda>i. item_key i \<notin> insert ?k seen) ?items
               = filter (\<lambda>y. item_key y \<noteq> ?k) (filter (\<lambda>i. item_key i \<notin> seen) ?items)"
    unfolding filter_filter by (rule filter_cong) auto
  consider (dropped) "\<not> has_identifier (row_item r)"
    | (seen) "has_identifier (row_item r)" "?k \<in> seen"
    | (kept) "has_identifier (row_item r)" "?k \<notin> seen"
    by blast
  then show ?case
  proof cases
    case dropped
    then show ?thesis unfolding normalise_loop_step Cons.IH by simp
  next
    case seen
    then show ?thesis unfolding normalise_loop_step Cons.IH by simp
  next
    case kept
    then have "normalise_loop (r # rows) seen out
                 = normalise_loop rows (insert ?k seen) (out @ [row_item r])"
      unfolding normalise_loop_step by simp
    also have "\<dots> = (out @ [row_item r]) @ first_occurrences item_key
                 (filter (\<lambda>y. item_key y \<noteq> ?k) (filter (\<lambda>i. item_key i \<notin> seen) ?items))"
      unfolding Cons.IH flt ..
    also have "\<dots> = out @ first_occurrences item_key
                 (row_item r # filter (\<lambda>i. item_key i \<notin> seen) ?items)"
      by simp
    also have "row_item r # filter (\<lambda>i. item_key i \<notin> seen) ?items
                 = filter (\<lambda>i. item_key i \<notin> seen) (filter has_identifier (map row_item (r # rows)))"
      using kept by simp
    finally show ?thesis .
  qed
qed

lemma find_filter_weaker:
  assumes "\<And>y. P y \<Longrightarrow> Q y"
  shows "find P (filter Q xs) = find P xs"
  using assms by (induction xs) auto

lemma first_occurrences_subset: "set (first_occurrences key xs) \<subseteq> set xs"
  by (induction key xs rule: first_occurrences.induct) auto

lemma first_occurrences_keys: "key ` set (first_occurrences key xs) = key ` set xs"
proof (induction key xs rule: first_occurrences.induct)
  case (1 key)
  then show ?case by simp
next
  case (2 key x xs)
  have "key ` set (x # xs) = insert (key x) (key ` set (filter (\<lambda>y. key y \<noteq> key x) xs))"
    by auto
  with 2 show ?case by simp
qed

lemma first_occurrences_distinct: "distinct (map key (first_occurrences key xs))"
proof (induction key xs rule: first_occurrences.induct)
  case (1 key)
  then show ?case by simp
next
  case (2 key x xs)
  have "key x \<notin> key ` set (first_occurrences key (filter (\<lambda>y. key y \<noteq> key x) xs))"
    unfolding first_occurrences_keys by auto
  with 2 show ?case by simp
qed

lemma first_occurrences_subseq: "subseq (first_occurrences key xs) xs"
proof (induction key xs rule: first_occurrences.induct)
  case (1 key)
  then show ?case by simp
next
  case (2 key x xs)
  have "subseq (filter (\<lambda>y. key y \<noteq> key x) xs) xs" by simp
  with 2 have "subseq (first_occurrences key (filter (\<lambda>y. key y \<noteq> key x) xs)) xs"
    using subseq_order.order_trans by blast
  then show ?case by simp
qed

lemma first_occurrences_first:
  "x \<in> set (first_occurrences key xs) \<Longrightarrow> find (\<lambda>y. key y = key x) xs = Some x"
proof (induction key xs rule: first_occurrences.induct)
  case (1 key)
  then show ?case by simp
next
  case (2 key a xs)
  show ?case
  proof (cases "x = a")
    case True
    then show ?thesis by simp
  next
    case False
    with "2.prems" have mem: "x \<in> set (first_occurrences key (filter (\<lambda>y. key y \<noteq> key a) xs))"
      by simp
    then have "x \<in> set (filter (\<lambda>y. key y \<noteq> key a) xs)"
      by (rule subsetD[OF first_occurrences_subset])
    then have ne: "key a \<noteq> key x" by auto
    have "find (\<lambda>y. key y = key x) (filter (\<lambda>y. key y \<noteq> key a) xs)
            = find (\<lambda>y. key y = key x) xs"
    proof (rule find_filter_weaker)
      fix y assume "key y = key x"
      with ne show "key y \<noteq> key a" by metis
    qed
    with "2.IH"[OF mem] have "find (\<lambda>y. key y = key x) xs = Some x" by metis
    moreover have "find (\<lambda>y. key y = key x) (a # xs) = find (\<lambda>y. key y = key x) xs"
      using ne by (simp only: find.simps if_False)
    ultimately show ?thesis by metis
  qed
qed

lemma blank_value_read:
  assumes "blank_value a" "blank_value b"
  shows "py_strip (py_or_str (py_or a b) []) = []"
proof -
  have blank: "\<And>s. list_all py_isspace s \<Longrightarrow> py_strip s = []"
  proof -
    fix s assume "list_all py_isspace s"
    then have "dropWhile py_isspace s = []" by (simp add: list_all_iff)
    then show "py_strip s = []" unfolding py_strip_def by (simp only: rev.simps dropWhile.simps)
  qed
  have "list_all py_isspace (py_or_str (py_or a b) [])"
  proof (cases "str_truthy a")
    case True
    then obtain s where "a = Some s" "s \<noteq> []" by (cases a) (auto simp: str_truthy_def)
    with assms(1) show ?thesis
      by (simp add: blank_value_def py_or_def py_or_str_def str_truthy_def isspace_code_fun)
  next
    case False
    then have "py_or a b = b" by (simp add: py_or_def)
    with assms(2) show ?thesis
      by (cases b) (simp_all add: blank_value_def py_or_str_def isspace_code_fun)
  qed
  then show ?thesis by (rule blank)
qed

lemma blank_row_no_identifier: "blank_row r \<Longrightarrow> \<not> has_identifier (row_item r)"
  by (simp add: blank_row_def has_identifier_def row_item_def read_field_def Let_def blank_value_read)

lemma blank_rows_contribute_nothing:
  "filter has_identifier (map row_item (filter (\<lambda>r. \<not> blank_row r) rows))
     = filter has_identifier (map row_item rows)"
  by (induction rows) (auto simp: blank_row_no_identifier)

lemma normalise_rows_spec:
  "normalise_rows rows = first_occurrences item_key (filter has_identifier (map row_item rows))"
  unfolding normalise_rows_def normalise_loop_spec by simp

text \<open>
  Claim C3. \<open>_normalise_rows\<close> returns the items of the rows that have an identifier,
  keeping for each identity key (lowercased sku, lowercased url) the first item with that key,
  in the order of the rows: the kept keys are pairwise distinct, the result is a subsequence
  of the rows' items, each kept item is the first item of its key among the rows that have an
  identifier, and every such row has its key represented. A row whose \<open>SKU\<close>, \<open>sku\<close>,
  \<open>URL\<close> and \<open>url\<close> are all missing, \<open>None\<close> or whitespace only yields no item, and
  removing such rows from the input changes nothing; the function is total, so no row makes
  it fail. Two rows with the same identity key, the first having an identifier, yield the one
  item of the first row.
\<close>

theorem normalise_rows_dedup:
  "normalise_rows rows = first_occurrences item_key (filter has_identifier (map row_item rows))
   \<and> distinct (map item_key (normalise_rows rows))
   \<and> subseq (normalise_rows rows) (map row_item rows)
   \<and> (\<forall>it \<in> set (normalise_rows rows).
         has_identifier it
         \<and> find (\<lambda>x. item_key x = item_key it) (filter has_identifier (map row_item rows)) = Some it)
   \<and> (\<forall>r \<in> set rows. has_identifier (row_item r)
         \<longrightarrow> item_key (row_item r) \<in> item_key ` set (normalise_rows rows))
   \<and> (\<forall>r \<in> set rows. blank_row r \<longrightarrow> row_item r \<notin> set (normalise_rows rows))
   \<and> normalise_rows (filter (\<lambda>r. \<not> blank_row r) rows) = normalise_rows rows
   \<and> (has_identifier (row_item r1) \<and> item_key (row_item r1) = item_key (row_item r2)
        \<longrightarrow> normalise_rows [r1, r2] = [row_item r1])"
proof -
  let ?items = "filter has_identifier (map row_item rows)"
  have spec: "normalise_rows rows = first_occurrences item_key ?items"
    by (rule normalise_rows_spec)
  have sub: "set (normalise_rows rows) \<subseteq> set ?items"
    unfolding spec by (rule first_occurrences_subset)
  have d: "distinct (map item_key (normalise_rows rows))"
    unfolding spec by (rule first_occurrences_distinct)
  have "subseq (first_occurrences item_key ?items) ?items" by (rule first_occurrences_subseq)
  moreover have "subseq ?items (map row_item rows)" by simp
  ultimately have s: "subseq (normalise_rows rows) (map row_item rows)"
    unfolding spec using subseq_order.order_trans by blast
  have f: "\<forall>it \<in> set (normalise_rows rows).
         has_identifier it
         \<and> find (\<lambda>x. item_key x = item_key it) ?items = Some it"
  proof
    fix it assume mem: "it \<in> set (normalise_rows rows)"
    have "it \<in> set ?items" by (rule subsetD[OF sub mem])
    then have "has_identifier it" by simp
    moreover from mem have "find (\<lambda>x. item_key x = item_key it) ?items = Some it"
      unfolding spec by (rule first_occurrences_first)
    ultimately show "has_identifier it \<and> find (\<lambda>x. item_key x = item_key it) ?items = Some it" ..
  qed
  have keys: "item_key ` set (normalise_rows rows) = item_key ` set ?items"
    unfolding spec by (rule first_occurrences_keys)
  have k: "\<forall>r \<in> set rows. has_identifier (row_item r)
         \<longrightarrow> item_key (row_item r) \<in> item_key ` set (normalise_rows rows)"
    unfolding keys by auto
  have b: "\<forall>r \<in> set rows. blank_row r \<longrightarrow> row_item r \<notin> set (normalise_rows rows)"
  proof (intro ballI impI)
    fix r assume "blank_row r"
    then have "\<not> has_identifier (row_item r)" by (rule blank_row_no_identifier)
    then have "row_item r \<notin> set ?items" by simp
    with sub show "row_item r \<notin> set (normalise_rows rows)" by blast
  qed
  have n: "normalise_rows (filter (\<lambda>r. \<not> blank_row r) rows) = normalise_rows rows"
    unfolding normalise_rows_spec blank_rows_contribute_nothing ..
  have p: "has_identifier (row_item r1) \<and> item_key (row_item r1) = item_key (row_item r2)
        \<longrightarrow> normalise_rows [r1, r2] = [row_item r1]"
    unfolding normalise_rows_spec by simp
  from spec d s f k b n p show ?thesis by (intro conjI)
qed

theorem normalise_rows_dedup_witness:
  "normalise_rows
     [[(''sku'', Some ''ABC-1'')],
      [(''SKU'', Some ''  ''), (''url'', None)],
      [(''SKU'', Some ''abc-1 '')],
      [(''URL'', Some ''https://Shop.example/p'')]]
   = [\<lparr>item_sku = Some ''ABC-1'', item_url = None\<rparr>,
      \<lparr>item_sku = None, item_url = Some ''https://Shop.example/p''\<rparr>]
   \<and> blank_row [(''SKU'', Some ''  ''), (''url'', None)]
   \<and> has_identifier (row_item [(''sku'', Some ''ABC-1'')])
   \<and> item_key (row_item [(''sku'', Some ''ABC-1'')]) = item_key (row_item [(''SKU'', Some ''abc-1 '')])
   \<and> normalise_rows [[(''sku'', Some ''ABC-1'')], [(''SKU'', Some ''abc-1 '')]]
       = [\<lparr>item_sku = Some ''ABC-1'', item_url = None\<rparr>]"
proof -
  let ?r1 = "[(''sku'', Some ''ABC-1'')] :: row"
  let ?r2 = "[(''SKU'', Some ''  ''), (''url'', None)] :: row"
  let ?r3 = "[(''SKU'', Some ''abc-1 '')] :: row"
  let ?r4 = "[(''URL'', Some ''https://Shop.example/p'')] :: row"
  have i1: "row_item ?r1 = \<lparr>item_sku = Some ''ABC-1'', item_url = None\<rparr>" by code_simp
  have i2: "row_item ?r2 = \<lparr>item_sku = None, item_url = None\<rparr>" by code_simp
  have i3: "row_item ?r3 = \<lparr>item_sku = Some ''abc-1'', item_url = None\<rparr>" by code_simp
  have i4: "row_item ?r4 = \<lparr>item_sku = None, item_url = Some ''https://Shop.example/p''\<rparr>"
    by code_simp
  have k1: "item_key \<lparr>item_sku = Some ''ABC-1'', item_url = None\<rparr> = (''abc-1'', [])"
    by code_simp
  have k3: "item_key \<lparr>item_sku = Some ''abc-1'', item_url = None\<rparr> = (''abc-1'', [])"
    by code_simp
  have k4: "item_key \<lparr>item_sku = None, item_url = Some ''https://Shop.example/p''\<rparr>
              = ([], ''https://shop.example/p'')"
    by code_simp
  have b: "blank_row ?r2" by code_simp
  from normalise_rows_dedup[of "[?r1, ?r2, ?r3, ?r4]" ?r1 ?r3] b
  show ?thesis
    by (simp add: i1 i2 i3 i4 k1 k3 k4 has_identifier_def)
qed

section \<open>Indexing a page of products\<close>

lemma store_entries_Nil: "store_entries [] cat = cat"
  by (simp add: store_entries_def)

lemma store_entries_Cons: "store_entries (e # es) cat = store_entries es (AList.update (fst e) (snd e) cat)"
  by (simp add: store_entries_def)

lemma store_entries_append: "store_entries (a @ b) cat = store_entries b (store_entries a cat)"
  by (simp add: store_entries_def)

lemma entries_of_Nil: "entries_of fmt base [] = []"
  by (simp add: entries_of_def)

lemma entries_of_append:
  "entries_of fmt base (a @ b) = entries_of fmt base a @ entries_of fmt base b"
  by (simp add: entries_of_def)

lemma index_variants_spec:
  "index_variants fmt base pf vs cat =
     (if list_all is_obj vs then None else Some AttributeError,
      store_entries
        (entries_of fmt base
           (concat (map (\<lambda>variant. case variant of JObj v \<Rightarrow> [(pf, v)] | _ \<Rightarrow> [])
                      (takeWhile is_obj vs))))
        cat)"
proof (induction vs arbitrary: cat)
  case Nil
  then show ?case by (simp add: entries_of_def store_entries_def)
next
  case (Cons variant rest)
  show ?case
  proof (cases variant)
    case (JObj v)
    then show ?thesis
      by (simp add: Cons.IH entries_of_def store_entries_def has_sku_def variant_entry_def)
  qed (simp_all add: entries_of_def store_entries_def)
qed

lemma main_image_ok: "(\<exists>img. main_image_of images = Inr img) \<longleftrightarrow> images_ok images"
proof (cases "truthy images")
  case False
  then show ?thesis by (simp add: main_image_of_def images_ok_def)
next
  case True
  show ?thesis
  proof (cases images)
    case (JArr xs)
    show ?thesis
    proof (cases xs)
      case Nil
      with JArr True show ?thesis by simp
    next
      case (Cons img imgs)
      with JArr show ?thesis by (cases img) (simp_all add: main_image_of_def images_ok_def)
    qed
  next
    case (JStr str)
    with True show ?thesis by (cases str) (simp_all add: main_image_of_def images_ok_def)
  qed (use True in \<open>simp_all add: main_image_of_def images_ok_def\<close>)
qed

lemma index_product_spec:
  "index_product fmt base product cat =
     (fst (index_product fmt base product cat),
      store_entries (entries_of fmt base (product_variants product)) cat)"
  by (auto simp: index_product_def product_variants_def index_variants_spec
        entries_of_Nil store_entries_Nil split: json.splits sum.splits)

lemma index_product_ok:
  "fst (index_product fmt base product cat) = None \<longleftrightarrow> well_formed_product product"
proof (cases product)
  case (JObj p)
  let ?images = "obj_get p ''images'' (JArr [])"
  let ?variants = "obj_get p ''variants'' (JArr [])"
  show ?thesis
  proof (cases "main_image_of ?images")
    case (Inl e)
    with main_image_ok[of ?images] have "\<not> images_ok ?images" by auto
    with Inl JObj show ?thesis by (simp add: index_product_def well_formed_product_def)
  next
    case (Inr img)
    with main_image_ok[of ?images] have "images_ok ?images" by auto
    with Inr JObj show ?thesis
      by (auto simp: index_product_def well_formed_product_def variants_ok_def index_variants_spec
            split: sum.splits)
  qed
qed (simp_all add: index_product_def well_formed_product_def)

lemma index_products_spec:
  "index_products fmt base ps cat =
     (fst (index_products fmt base ps cat),
      store_entries (entries_of fmt base (products_variants ps)) cat)"
proof (induction ps arbitrary: cat)
  case Nil
  then show ?case by (simp add: entries_of_Nil store_entries_Nil)
next
  case (Cons product rest)
  let ?r = "index_product fmt base product cat"
  have r: "?r = (fst ?r, store_entries (entries_of fmt base (product_variants product)) cat)"
    by (rule index_product_spec)
  show ?case
  proof (cases "fst ?r")
    case None
    then have wf: "well_formed_product product" by (simp add: index_product_ok)
    from None r have "?r = (None, store_entries (entries_of fmt base (product_variants product)) cat)"
      by simp
    then have "index_products fmt base (product # rest) cat
                 = index_products fmt base rest
                     (store_entries (entries_of fmt base (product_variants product)) cat)"
      by simp
    then show ?thesis
      using Cons.IH[of "store_entries (entries_of fmt base (product_variants product)) cat"] wf
      by (simp add: entries_of_append store_entries_append)
  next
    case (Some e)
    then have wf: "\<not> well_formed_product product" using index_product_ok[of fmt base product cat] by simp
    from Some r have "?r = (Some e, store_entries (entries_of fmt base (product_variants product)) cat)"
      by simp
    then have "index_products fmt base (product # rest) cat
                 = (Some e, store_entries (entries_of fmt base (product_variants product)) cat)"
      by simp
    with wf show ?thesis by simp
  qed
qed

lemma index_products_Cons:
  "index_products fmt base (product # rest) cat =
     (case fst (index_product fmt base product cat) of
        None \<Rightarrow> index_products fmt base rest (snd (index_product fmt base product cat))
      | Some e \<Rightarrow> (Some e, snd (index_product fmt base product cat)))"
  by (simp split: prod.splits option.splits)

lemma index_products_ok:
  "fst (index_products fmt base ps cat) = None \<longleftrightarrow> list_all well_formed_product ps"
proof (induction ps arbitrary: cat)
  case Nil
  then show ?case by simp
next
  case (Cons product rest)
  let ?r = "index_product fmt base product cat"
  show ?case
  proof (cases "fst ?r")
    case None
    then have wf: "well_formed_product product" by (simp add: index_product_ok)
    from None have "index_products fmt base (product # rest) cat = index_products fmt base rest (snd ?r)"
      unfolding index_products_Cons by simp
    with Cons.IH[of "snd ?r"] wf show ?thesis by simp
  next
    case (Some e)
    then have wf: "\<not> well_formed_product product" using index_product_ok[of fmt base product cat] by simp
    from Some have "index_products fmt base (product # rest) cat = (Some e, snd ?r)"
      unfolding index_products_Cons by simp
    with wf show ?thesis by simp
  qed
qed

section \<open>The pagination loop\<close>

lemma falsy_iter: "\<not> truthy v \<Longrightarrow> py_iter v = Inr ps \<Longrightarrow> ps = []"
  by (cases v) auto

lemma read_page_stop:
  assumes "read_page r = Inl stop"
  shows "page_variants r = []" and "\<not> nonempty_page r" and "stop \<noteq> Continue"
proof -
  show "page_variants r = []"
    using assms
    by (auto simp: read_page_def page_variants_def page_products_def
          dest: falsy_iter
          split: option.splits response.splits json.splits if_splits sum.splits)
  show "\<not> nonempty_page r"
    using assms
    by (auto simp: read_page_def nonempty_page_def page_products_def
          split: option.splits response.splits json.splits if_splits sum.splits)
  show "stop \<noteq> Continue"
    using assms
    by (auto simp: read_page_def split: option.splits response.splits if_splits sum.splits)
qed

lemma read_page_products:
  assumes "read_page r = Inr products"
  shows "page_products r = Some products" and "truthy products"
proof -
  show "page_products r = Some products"
    using assms
    by (auto simp: read_page_def page_products_def
          split: option.splits response.splits json.splits if_splits sum.splits)
  show "truthy products"
    using assms
    by (auto simp: read_page_def split: option.splits response.splits if_splits sum.splits)
qed

lemma not_iterable_page:
  assumes "page_products r = Some products" "py_iter products = Inl e"
  shows "page_variants r = []" and "\<not> nonempty_page r"
  using assms by (auto simp: page_variants_def nonempty_page_def split: json.splits)

lemma iterable_page:
  assumes "page_products r = Some products" "truthy products" "py_iter products = Inr ps"
  shows "page_variants r = products_variants ps"
    and "nonempty_page r \<longleftrightarrow> list_all well_formed_product ps"
proof -
  show "page_variants r = products_variants ps"
    using assms by (simp add: page_variants_def)
  show "nonempty_page r \<longleftrightarrow> list_all well_formed_product ps"
  proof (cases products)
    case (JArr xs)
    with assms show ?thesis by (auto simp: nonempty_page_def)
  next
    case (JStr str)
    with assms obtain c cs where "str = c # cs" by (cases str) auto
    with JStr assms show ?thesis by (auto simp: nonempty_page_def well_formed_product_def)
  next
    case (JObj kvs)
    with assms obtain kv rest where "kvs = kv # rest" by (cases kvs) auto
    with JObj assms show ?thesis by (auto simp: nonempty_page_def well_formed_product_def)
  qed (use assms in auto)
qed

text \<open>One run of the loop body.\<close>

lemma fetch_page_spec:
  "snd (fetch_page fmt r idx)
     = idx\<lparr>catalog := store_entries (entries_of fmt (base_url idx) (page_variants r)) (catalog idx)\<rparr>"
  and fetch_page_continue: "fst (fetch_page fmt r idx) = Continue \<longleftrightarrow> nonempty_page r"
proof -
  let ?goal1 = "snd (fetch_page fmt r idx)
     = idx\<lparr>catalog := store_entries (entries_of fmt (base_url idx) (page_variants r)) (catalog idx)\<rparr>"
  let ?goal2 = "fst (fetch_page fmt r idx) = Continue \<longleftrightarrow> nonempty_page r"
  have "?goal1 \<and> ?goal2"
  proof (cases "read_page r")
    case (Inl stop)
    from read_page_stop[OF Inl] Inl show ?thesis
      by (simp add: fetch_page_def entries_of_Nil store_entries_Nil)
  next
    case (Inr products)
    note pp = read_page_products[OF Inr]
    show ?thesis
    proof (cases "py_iter products")
      case (Inl e)
      from not_iterable_page[OF pp(1) Inl] Inl Inr show ?thesis
        by (simp add: fetch_page_def entries_of_Nil store_entries_Nil)
    next
      case ps: (Inr ps)
      note it = iterable_page[OF pp ps]
      let ?res = "index_products fmt (base_url idx) ps (catalog idx)"
      have snd_res: "snd ?res = store_entries (entries_of fmt (base_url idx) (products_variants ps)) (catalog idx)"
        using index_products_spec[of fmt "base_url idx" ps "catalog idx"] by (metis snd_conv)
      have fst_res: "fst ?res = None \<longleftrightarrow> list_all well_formed_product ps"
        by (rule index_products_ok)
      have fp: "fetch_page fmt r idx =
                  (case fst ?res of Some e \<Rightarrow> Caught e | None \<Rightarrow> Continue,
                   idx\<lparr>catalog := snd ?res\<rparr>)"
        using Inr ps by (simp add: fetch_page_def split: prod.splits option.splits)
      show ?thesis
        unfolding fp snd_res it using fst_res by (auto split: option.splits)
    qed
  qed
  then show ?goal1 and ?goal2 by blast+
qed

lemma fetch_loop_unfold:
  "fetch_loop fmt fd page count fetched idx =
     (if fst (fetch_page fmt (fd page) idx) = Continue
      then fetch_loop fmt fd (page + 1) (length (catalog (snd (fetch_page fmt (fd page) idx))))
             (fetched @ [page]) (snd (fetch_page fmt (fd page) idx))
      else Some (count, fetched @ [page], snd (fetch_page fmt (fd page) idx)))"
proof (cases "fetch_page fmt (fd page) idx")
  case (Pair res idx')
  then show ?thesis by (subst fetch_loop.simps) (cases res; simp)
qed

text \<open>
  The loop: when the pages \<open>page\<close> to \<open>page + k - 1\<close> are non-empty pages and the page
  \<open>page + k\<close> is not, the loop requests the pages \<open>page\<close> to \<open>page + k\<close> and ends.
\<close>

lemma fetch_loop_run:
  assumes "list_all (\<lambda>q. nonempty_page (fd q)) [page..<page + k]"
    and "\<not> nonempty_page (fd (page + k))"
  shows "fetch_loop fmt fd page count fetched idx =
           Some (if k = 0 then count
                 else length (store_entries
                        (entries_of fmt (base_url idx)
                           (concat (map (\<lambda>q. page_variants (fd q)) [page..<page + k])))
                        (catalog idx)),
                 fetched @ [page..<Suc (page + k)],
                 idx\<lparr>catalog := store_entries
                        (entries_of fmt (base_url idx)
                           (concat (map (\<lambda>q. page_variants (fd q)) [page..<Suc (page + k)])))
                        (catalog idx)\<rparr>)"
  using assms
proof (induction k arbitrary: page count fetched idx)
  case 0
  let ?fp = "fetch_page fmt (fd page) idx"
  from 0 have "fst ?fp \<noteq> Continue" by (simp add: fetch_page_continue)
  then have "fetch_loop fmt fd page count fetched idx = Some (count, fetched @ [page], snd ?fp)"
    by (subst fetch_loop_unfold) simp
  then show ?case by (simp add: fetch_page_spec)
next
  case (Suc k)
  let ?fp = "fetch_page fmt (fd page) idx"
  let ?idx' = "snd ?fp"
  have u1: "[page..<page + Suc k] = page # [Suc page..<Suc page + k]"
    using upt_conv_Cons[of page "page + Suc k"] by (simp del: upt_Suc)
  have u2: "[page..<Suc (page + Suc k)] = page # [Suc page..<Suc (Suc page + k)]"
    using upt_conv_Cons[of page "Suc (page + Suc k)"] by (simp del: upt_Suc)
  from Suc.prems(1) have here: "nonempty_page (fd page)"
    and rest: "list_all (\<lambda>q. nonempty_page (fd q)) [Suc page..<Suc page + k]"
    unfolding u1 by simp_all
  from Suc.prems(2) have stop: "\<not> nonempty_page (fd (Suc page + k))" by simp
  from here have "fst ?fp = Continue" by (simp add: fetch_page_continue)
  then have "fetch_loop fmt fd page count fetched idx
               = fetch_loop fmt fd (Suc page) (length (catalog ?idx')) (fetched @ [page]) ?idx'"
    by (subst fetch_loop_unfold) simp
  also note Suc.IH[OF rest stop, of "length (catalog ?idx')" "fetched @ [page]" ?idx']
  finally have run: "fetch_loop fmt fd page count fetched idx =
     Some (if k = 0 then length (catalog ?idx')
           else length (store_entries
                  (entries_of fmt (base_url ?idx')
                     (concat (map (\<lambda>q. page_variants (fd q)) [Suc page..<Suc page + k])))
                  (catalog ?idx')),
           (fetched @ [page]) @ [Suc page..<Suc (Suc page + k)],
           ?idx'\<lparr>catalog := store_entries
                  (entries_of fmt (base_url ?idx')
                     (concat (map (\<lambda>q. page_variants (fd q)) [Suc page..<Suc (Suc page + k)])))
                  (catalog ?idx')\<rparr>)" .
  have idx': "?idx' = idx\<lparr>catalog := store_entries (entries_of fmt (base_url idx) (page_variants (fd page))) (catalog idx)\<rparr>"
    by (rule fetch_page_spec)
  show ?case
    unfolding run u1 u2 idx'
    by (simp add: entries_of_append store_entries_append entries_of_Nil store_entries_Nil)
qed

section \<open>The catalog after \<open>fetch_catalog\<close>\<close>

lemma find_append_if:
  "find P (xs @ ys) = (case find P xs of Some x \<Rightarrow> Some x | None \<Rightarrow> find P ys)"
  by (induction xs) auto

lemma last_with_key_Nil: "last_with_key key [] = None"
  by (simp add: last_with_key_def)

lemma last_with_key_Cons:
  "last_with_key key (e # es) =
     (case last_with_key key es of
        Some r \<Rightarrow> Some r
      | None \<Rightarrow> if fst e = key then Some (snd e) else None)"
  by (simp add: last_with_key_def find_append_if split: option.splits)

lemma last_with_key_map_of: "last_with_key key es = map_of (rev es) key"
proof (induction es)
  case Nil
  then show ?case by (simp add: last_with_key_def)
next
  case (Cons e es)
  then show ?case
    by (cases e) (auto simp: last_with_key_Cons map_add_def split: option.splits)
qed

lemma map_of_store_entries:
  "map_of (store_entries es cat) key =
     (case last_with_key key es of Some r \<Rightarrow> Some r | None \<Rightarrow> map_of cat key)"
proof (induction es arbitrary: cat)
  case Nil
  then show ?case by (simp add: store_entries_Nil last_with_key_Nil)
next
  case (Cons e es)
  show ?case
    unfolding store_entries_Cons Cons.IH last_with_key_Cons
    by (simp add: update_conv' split: option.splits)
qed


lemma distinct_store_entries:
  "distinct (map fst cat) \<Longrightarrow> distinct (map fst (store_entries es cat))"
proof (induction es arbitrary: cat)
  case Nil
  then show ?case by (simp add: store_entries_Nil)
next
  case (Cons e es)
  then show ?case unfolding store_entries_Cons by (simp add: distinct_update)
qed



lemma last_with_key_last:
  assumes "key \<notin> fst ` set c"
  shows "last_with_key key (a @ (key, r) # c) = Some r"
proof -
  from assms have "find (\<lambda>e. fst e = key) (rev c) = None"
    by (force simp: find_None_iff)
  then show ?thesis by (simp add: last_with_key_def find_append_if)
qed

lemma last_with_key_None: "last_with_key key es = None \<longleftrightarrow> key \<notin> fst ` set es"
  by (force simp: last_with_key_def find_None_iff)

lemma last_with_key_distinct:
  assumes "distinct (map fst es)" "(key, r) \<in> set es"
  shows "last_with_key key es = Some r"
proof -
  from assms(1) have "distinct (map fst (rev es))" by (simp add: rev_map[symmetric])
  moreover from assms(2) have "(key, r) \<in> set (rev es)" by simp
  ultimately have "map_of (rev es) key = Some r" by (rule map_of_is_SomeI)
  then show ?thesis by (simp only: last_with_key_map_of)
qed




lemma stop_page_cases: "\<not> nonempty_page r \<longleftrightarrow> empty_page r \<or> page_fails r"
  by (auto simp: page_fails_def fails_at_fetch_def fails_at_indexing_def nonempty_page_def
        empty_page_def split: option.splits json.splits)

lemma feed_variants_0: "feed_variants fd 0 = []"
  by (simp add: feed_variants_def)



text \<open>
  \<open>fetch_catalog\<close> on a new indexer, for a feed whose pages 1 to \<open>k\<close> are non-empty pages
  and whose page \<open>k + 1\<close> is not.
\<close>

lemma fetch_catalog_run:
  assumes "list_all (\<lambda>q. nonempty_page (fd q)) [1..<Suc k]"
    and "\<not> nonempty_page (fd (Suc k))"
  shows "fetch_catalog fmt fd (init_indexer url) =
           Some (length (store_entries (feed_entries fmt (py_rstrip_slash url) fd k) []),
                 [1..<Suc (Suc k)],
                 \<lparr>base_url = py_rstrip_slash url,
                  products_url = py_rstrip_slash url @ ''/products.json'',
                  catalog = store_entries (feed_entries fmt (py_rstrip_slash url) fd (Suc k)) [],
                  indexed = True\<rparr>)"
proof -
  from assms have a: "list_all (\<lambda>q. nonempty_page (fd q)) [1..<1 + k]"
    and b: "\<not> nonempty_page (fd (1 + k))" by simp_all
  have k0: "k = 0 \<Longrightarrow> store_entries (feed_entries fmt (py_rstrip_slash url) fd k) [] = []"
    by (simp add: feed_entries_def feed_variants_0 entries_of_Nil store_entries_Nil)
  show ?thesis
    unfolding fetch_catalog_def fetch_loop_run[OF a b]
    using k0 by (simp add: init_indexer_def Let_def feed_entries_def feed_variants_def)
qed



section \<open>\<open>fetch_catalog\<close>: claims\<close>




lemma index_products_last_write:
  "map_of (snd (index_products fmt base ps cat)) key =
     (case last_with_key key (entries_of fmt base (products_variants ps)) of
        Some r \<Rightarrow> Some r
      | None \<Rightarrow> map_of cat key)"
proof -
  have "snd (index_products fmt base ps cat)
          = store_entries (entries_of fmt base (products_variants ps)) cat"
    using index_products_spec[of fmt base ps cat] by (metis snd_conv)
  then show ?thesis by (simp only: map_of_store_entries)
qed

text \<open>
  Claim C9. For a feed whose pages 1 to \<open>k\<close> are non-empty pages and whose page
  \<open>k + 1\<close> ends the loop (it is empty or it fails), \<open>fetch_catalog\<close> on a new indexer
  returns, the keys of the catalog are distinct, and every key maps to the record of the last
  entry with that key among the SKU-carrying variants reached, in feed order: an entry after
  which its key does not occur again is the one the catalog holds, so of two entries with
  the same key the later one has replaced the earlier one. The same holds during indexing,
  for every list of products and every catalog it is added to.
\<close>

theorem last_write_wins:
  assumes "list_all (\<lambda>p. nonempty_page (fd p)) [1..<Suc k]"
    and "\<not> nonempty_page (fd (Suc k))"
  shows "\<exists>count fetched idx.
      fetch_catalog fmt fd (init_indexer url) = Some (count, fetched, idx)
    \<and> distinct (map fst (catalog idx))
    \<and> (\<forall>key. map_of (catalog idx) key
               = last_with_key key (feed_entries fmt (py_rstrip_slash url) fd (Suc k)))
    \<and> (\<forall>a key r c.
          feed_entries fmt (py_rstrip_slash url) fd (Suc k) = a @ (key, r) # c
          \<and> key \<notin> fst ` set c
          \<longrightarrow> map_of (catalog idx) key = Some r)
    \<and> (\<forall>a key r1 b r2 c.
          feed_entries fmt (py_rstrip_slash url) fd (Suc k) = a @ (key, r1) # b @ (key, r2) # c
          \<and> key \<notin> fst ` set c
          \<longrightarrow> map_of (catalog idx) key = Some r2)
    \<and> (\<forall>ps cat key.
          map_of (snd (index_products fmt (py_rstrip_slash url) ps cat)) key
            = (case last_with_key key (entries_of fmt (py_rstrip_slash url) (products_variants ps)) of
                 Some r \<Rightarrow> Some r
               | None \<Rightarrow> map_of cat key))"
proof -
  let ?base = "py_rstrip_slash url"
  let ?es = "feed_entries fmt ?base fd (Suc k)"
  let ?idx = "\<lparr>base_url = ?base, products_url = ?base @ ''/products.json'',
               catalog = store_entries ?es [], indexed = True\<rparr>"
  let ?count = "length (store_entries (feed_entries fmt ?base fd k) [])"
  have run: "fetch_catalog fmt fd (init_indexer url) = Some (?count, [1..<Suc (Suc k)], ?idx)"
    by (rule fetch_catalog_run[OF assms])
  have d: "distinct (map fst (catalog ?idx))" by (simp add: distinct_store_entries)
  have m: "\<forall>key. map_of (catalog ?idx) key = last_with_key key ?es"
    by (simp add: map_of_store_entries split: option.splits)
  have one: "\<forall>a key r c. ?es = a @ (key, r) # c \<and> key \<notin> fst ` set c
               \<longrightarrow> map_of (catalog ?idx) key = Some r"
  proof (intro allI impI)
    fix a key r c
    assume "?es = a @ (key, r) # c \<and> key \<notin> fst ` set c"
    then have "last_with_key key ?es = Some r" by (simp add: last_with_key_last)
    with m show "map_of (catalog ?idx) key = Some r" by simp
  qed
  have two: "\<forall>a key r1 b r2 c. ?es = a @ (key, r1) # b @ (key, r2) # c \<and> key \<notin> fst ` set c
               \<longrightarrow> map_of (catalog ?idx) key = Some r2"
  proof (intro allI impI)
    fix a key r1 b r2 c
    assume h: "?es = a @ (key, r1) # b @ (key, r2) # c \<and> key \<notin> fst ` set c"
    then have eq: "?es = (a @ (key, r1) # b) @ (key, r2) # c" and notin: "key \<notin> fst ` set c"
      by simp_all
    have "last_with_key key ?es = Some r2"
      unfolding eq using notin by (rule last_with_key_last)
    with m show "map_of (catalog ?idx) key = Some r2" by simp
  qed
  have during: "\<forall>ps cat key.
          map_of (snd (index_products fmt ?base ps cat)) key
            = (case last_with_key key (entries_of fmt ?base (products_variants ps)) of
                 Some r \<Rightarrow> Some r
               | None \<Rightarrow> map_of cat key)"
    by (intro allI) (rule index_products_last_write)
  from run d m one two during show ?thesis
    by (intro exI[of _ ?count] exI[of _ "[1..<Suc (Suc k)]"] exI[of _ ?idx] conjI)
qed

theorem last_write_wins_witness:
  "\<exists>count fetched idx.
      fetch_catalog example_fmt collision_feed (init_indexer ''https://shop.example'')
        = Some (count, fetched, idx)
    \<and> map_option vd_sku (map_of (catalog idx) ''73302'') = Some (JStr ''73302'')
    \<and> map_option vd_title (map_of (catalog idx) ''73302'') = Some (JStr ''Gadget'')
    \<and> map (\<lambda>e. (fst e, vd_sku (snd e)))
          (feed_entries example_fmt ''https://shop.example'' collision_feed 3)
        = [(''73302'', JStr ''073302''), (''73302'', JStr ''73302'')]"
proof -
  let ?url = "''https://shop.example''"
  have p: "list_all (\<lambda>p. nonempty_page (collision_feed p)) [1..<Suc 2]" by code_simp
  have e: "\<not> nonempty_page (collision_feed (Suc 2))" by code_simp
  have b: "py_rstrip_slash ?url = ?url" by code_simp
  have l1: "map_option vd_sku (last_with_key ''73302'' (feed_entries example_fmt ?url collision_feed (Suc 2)))
              = Some (JStr ''73302'')" by code_simp
  have l2: "map_option vd_title (last_with_key ''73302'' (feed_entries example_fmt ?url collision_feed (Suc 2)))
              = Some (JStr ''Gadget'')" by code_simp
  have es: "map (\<lambda>e. (fst e, vd_sku (snd e))) (feed_entries example_fmt ?url collision_feed 3)
        = [(''73302'', JStr ''073302''), (''73302'', JStr ''73302'')]" by code_simp
  from last_write_wins[OF p e, of example_fmt ?url] obtain count fetched idx where
    run: "fetch_catalog example_fmt collision_feed (init_indexer ?url) = Some (count, fetched, idx)"
    and m: "\<forall>key. map_of (catalog idx) key
               = last_with_key key (feed_entries example_fmt (py_rstrip_slash ?url) collision_feed (Suc 2))"
    by blast
  from m b have m': "map_of (catalog idx) ''73302''
                       = last_with_key ''73302'' (feed_entries example_fmt ?url collision_feed (Suc 2))"
    by simp
  from run l1 l2 es show ?thesis
    unfolding m'[symmetric] by (intro exI[of _ count] exI[of _ fetched] exI[of _ idx] conjI)
qed

lemma lookup_indexed: "indexed idx \<Longrightarrow> lookup_sku idx s = map_of (catalog idx) (lookup_sku_key s)"
  by (simp add: lookup_sku_def)

lemma index_key_text: "index_sku_key fmt sku = lookup_sku_key (py_str fmt sku)"
  by (simp add: index_sku_key_def lookup_sku_key_def)

text \<open>
  Claim C6, as stated, fails when two indexed variants have the same key. In
  \<open>collision_feed\<close> the variant with the SKU \<open>073302\<close> is indexed on page 1 and the variant
  with the SKU \<open>73302\<close> on page 2, under the same key. The query \<open>073302\<close> has that key, and
  \<open>lookup_sku\<close> returns the record of the second variant, not the record of the variant
  with the SKU \<open>073302\<close>.
\<close>

theorem overwritten_variant_counterexample:
  "fetch_catalog example_fmt collision_feed (init_indexer ''https://shop.example'')
     = Some (1, [1, 2, 3],
             example_indexer [(''73302'', example_record ''Gadget'' ''73302'')] True)
   \<and> feed_entries example_fmt ''https://shop.example'' collision_feed 2
       = [(''73302'', example_record ''Widget'' ''073302''),
          (''73302'', example_record ''Gadget'' ''73302'')]
   \<and> lookup_sku_key ''073302'' = index_sku_key example_fmt (JStr ''073302'')
   \<and> lookup_sku (example_indexer [(''73302'', example_record ''Gadget'' ''73302'')] True)
         ''073302''
       = Some (example_record ''Gadget'' ''73302'')
   \<and> example_record ''Gadget'' ''73302'' \<noteq> example_record ''Widget'' ''073302''"
proof -
  let ?url = "''https://shop.example''"
  have p: "list_all (\<lambda>p. nonempty_page (collision_feed p)) [1..<Suc 2]" by code_simp
  have e: "\<not> nonempty_page (collision_feed (Suc 2))" by code_simp
  have b: "py_rstrip_slash ?url = ?url" by code_simp
  have n: "length (store_entries (feed_entries example_fmt ?url collision_feed 2) []) = 1"
    by code_simp
  have c: "store_entries (feed_entries example_fmt ?url collision_feed (Suc 2)) []
             = [(''73302'', example_record ''Gadget'' ''73302'')]" by code_simp
  have run: "fetch_catalog example_fmt collision_feed (init_indexer ?url)
       = Some (1, [1, 2, 3], example_indexer [(''73302'', example_record ''Gadget'' ''73302'')] True)"
    using fetch_catalog_run[OF p e, of example_fmt ?url] unfolding b n c
    by (simp add: upt_conv_Cons example_indexer_def)
  have es: "feed_entries example_fmt ?url collision_feed 2
       = [(''73302'', example_record ''Widget'' ''073302''),
          (''73302'', example_record ''Gadget'' ''73302'')]" by code_simp
  have k: "lookup_sku_key ''073302'' = index_sku_key example_fmt (JStr ''073302'')" by code_simp
  have l: "lookup_sku (example_indexer [(''73302'', example_record ''Gadget'' ''73302'')] True)
         ''073302'' = Some (example_record ''Gadget'' ''73302'')" by code_simp
  have d: "example_record ''Gadget'' ''73302'' \<noteq> example_record ''Widget'' ''073302''"
    by code_simp
  from run es k l d show ?thesis by (intro conjI)
qed

text \<open>
  Claim C6, amended. The key computed at indexing time for a SKU is the key \<open>lookup_sku\<close>
  computes for the text of that SKU. After \<open>fetch_catalog\<close> on a new indexer has returned
  (the pages 1 to \<open>k\<close> are non-empty pages and the page \<open>k + 1\<close> ends the loop),
  \<open>lookup_sku\<close> of a query is the catalog's value under the key of the query: the record of
  the last indexed variant with that key, hence the record of any indexed variant whose key
  is the key of the query when the keys of the indexed variants are distinct, any record the
  catalog holds under that key, and \<open>None\<close> when no indexed variant has that key.
\<close>

theorem lookup_after_fetch:
  assumes "list_all (\<lambda>p. nonempty_page (fd p)) [1..<Suc k]"
    and "\<not> nonempty_page (fd (Suc k))"
  shows "\<exists>idx.
      fetch_catalog fmt fd (init_indexer url)
        = Some (length (store_entries (feed_entries fmt (py_rstrip_slash url) fd k) []),
                [1..<Suc (Suc k)], idx)
    \<and> (\<forall>sku. index_sku_key fmt sku = lookup_sku_key (py_str fmt sku))
    \<and> (\<forall>s. lookup_sku idx s = map_of (catalog idx) (lookup_sku_key s))
    \<and> (\<forall>s. lookup_sku idx s
             = last_with_key (lookup_sku_key s) (feed_entries fmt (py_rstrip_slash url) fd (Suc k)))
    \<and> (\<forall>s a r c.
          feed_entries fmt (py_rstrip_slash url) fd (Suc k) = a @ (lookup_sku_key s, r) # c
          \<and> lookup_sku_key s \<notin> fst ` set c
          \<longrightarrow> lookup_sku idx s = Some r)
    \<and> (\<forall>s pv.
          pv \<in> set (feed_variants fd (Suc k)) \<and> has_sku pv
          \<and> index_sku_key fmt (obj_get (snd pv) ''sku'' JNull) = lookup_sku_key s
          \<and> distinct (map fst (feed_entries fmt (py_rstrip_slash url) fd (Suc k)))
          \<longrightarrow> lookup_sku idx s = Some (make_variant_data fmt (py_rstrip_slash url) (fst pv) (snd pv)))
    \<and> (\<forall>s r. (lookup_sku_key s, r) \<in> set (catalog idx) \<longrightarrow> lookup_sku idx s = Some r)
    \<and> (\<forall>s. lookup_sku_key s \<notin> fst ` set (feed_entries fmt (py_rstrip_slash url) fd (Suc k))
          \<longrightarrow> lookup_sku idx s = None)"
proof -
  let ?base = "py_rstrip_slash url"
  let ?es = "feed_entries fmt ?base fd (Suc k)"
  let ?idx = "\<lparr>base_url = ?base, products_url = ?base @ ''/products.json'',
               catalog = store_entries ?es [], indexed = True\<rparr>"
  let ?count = "length (store_entries (feed_entries fmt ?base fd k) [])"
  have run: "fetch_catalog fmt fd (init_indexer url) = Some (?count, [1..<Suc (Suc k)], ?idx)"
    by (rule fetch_catalog_run[OF assms])
  have same: "\<forall>sku. index_sku_key fmt sku = lookup_sku_key (py_str fmt sku)"
    by (intro allI) (rule index_key_text)
  have get: "\<forall>s. lookup_sku ?idx s = map_of (catalog ?idx) (lookup_sku_key s)"
    by (simp add: lookup_indexed)
  have m: "\<forall>s. lookup_sku ?idx s = last_with_key (lookup_sku_key s) ?es"
    by (simp add: lookup_indexed map_of_store_entries split: option.splits)
  have one: "\<forall>s a r c. ?es = a @ (lookup_sku_key s, r) # c \<and> lookup_sku_key s \<notin> fst ` set c
               \<longrightarrow> lookup_sku ?idx s = Some r"
  proof (intro allI impI)
    fix s a r c
    assume "?es = a @ (lookup_sku_key s, r) # c \<and> lookup_sku_key s \<notin> fst ` set c"
    then have "last_with_key (lookup_sku_key s) ?es = Some r" by (simp add: last_with_key_last)
    with m show "lookup_sku ?idx s = Some r" by simp
  qed
  have found: "\<forall>s pv.
          pv \<in> set (feed_variants fd (Suc k)) \<and> has_sku pv
          \<and> index_sku_key fmt (obj_get (snd pv) ''sku'' JNull) = lookup_sku_key s
          \<and> distinct (map fst ?es)
          \<longrightarrow> lookup_sku ?idx s = Some (make_variant_data fmt ?base (fst pv) (snd pv))"
  proof (intro allI impI)
    fix s pv
    assume h: "pv \<in> set (feed_variants fd (Suc k)) \<and> has_sku pv
          \<and> index_sku_key fmt (obj_get (snd pv) ''sku'' JNull) = lookup_sku_key s
          \<and> distinct (map fst ?es)"
    then have "variant_entry fmt ?base pv \<in> set ?es"
      by (simp add: feed_entries_def entries_of_def)
    with h have "(lookup_sku_key s, make_variant_data fmt ?base (fst pv) (snd pv)) \<in> set ?es"
      by (simp add: variant_entry_def)
    with h have "last_with_key (lookup_sku_key s) ?es
                   = Some (make_variant_data fmt ?base (fst pv) (snd pv))"
      by (simp only: last_with_key_distinct)
    with m show "lookup_sku ?idx s = Some (make_variant_data fmt ?base (fst pv) (snd pv))" by simp
  qed
  have held: "\<forall>s r. (lookup_sku_key s, r) \<in> set (catalog ?idx) \<longrightarrow> lookup_sku ?idx s = Some r"
  proof (intro allI impI)
    fix s r
    assume "(lookup_sku_key s, r) \<in> set (catalog ?idx)"
    moreover have "distinct (map fst (catalog ?idx))" by (simp add: distinct_store_entries)
    ultimately have "map_of (catalog ?idx) (lookup_sku_key s) = Some r"
      by (simp only: map_of_is_SomeI)
    with get show "lookup_sku ?idx s = Some r" by simp
  qed
  have missing: "\<forall>s. lookup_sku_key s \<notin> fst ` set ?es \<longrightarrow> lookup_sku ?idx s = None"
  proof (intro allI impI)
    fix s assume "lookup_sku_key s \<notin> fst ` set ?es"
    then have "last_with_key (lookup_sku_key s) ?es = None" by (simp add: last_with_key_None)
    with m show "lookup_sku ?idx s = None" by simp
  qed
  from run same get m one found held missing show ?thesis
    by (intro exI[of _ ?idx] conjI)
qed

theorem lookup_after_fetch_witness:
  "\<exists>idx.
      fetch_catalog example_fmt example_feed (init_indexer ''https://shop.example'')
        = Some (2, [1, 2, 3], idx)
    \<and> lookup_sku idx ''73302'' = lookup_sku idx ''073302''
    \<and> map_option vd_sku (lookup_sku idx ''073302'') = Some (JStr ''073302'')
    \<and> map_option vd_title (lookup_sku idx ''073302'') = Some (JStr ''Gadget'')
    \<and> map_option vd_sku (lookup_sku idx ''ABC-1'') = Some (JStr ''ABC-1'')
    \<and> map_option vd_title (lookup_sku idx ''ABC-1'') = Some (JStr ''Widget'')
    \<and> lookup_sku idx ''missing'' = None"
proof -
  let ?url = "''https://shop.example''"
  let ?es = "feed_entries example_fmt (py_rstrip_slash ?url) example_feed (Suc 2)"
  have p: "list_all (\<lambda>p. nonempty_page (example_feed p)) [1..<Suc 2]" by code_simp
  have e: "\<not> nonempty_page (example_feed (Suc 2))" by code_simp
  have n: "length (store_entries (feed_entries example_fmt (py_rstrip_slash ?url) example_feed 2) []) = 2"
    by code_simp
  have k1: "lookup_sku_key ''73302'' = ''73302''" by code_simp
  have k2: "lookup_sku_key ''073302'' = ''73302''" by code_simp
  have k3: "lookup_sku_key ''ABC-1'' = ''abc-1''" by code_simp
  have k4: "lookup_sku_key ''missing'' = ''missing''" by code_simp
  have l1: "map_option vd_sku (last_with_key ''73302'' ?es) = Some (JStr ''073302'')" by code_simp
  have l2: "map_option vd_title (last_with_key ''73302'' ?es) = Some (JStr ''Gadget'')" by code_simp
  have l3: "map_option vd_sku (last_with_key ''abc-1'' ?es) = Some (JStr ''ABC-1'')" by code_simp
  have l4: "map_option vd_title (last_with_key ''abc-1'' ?es) = Some (JStr ''Widget'')" by code_simp
  have l5: "last_with_key ''missing'' ?es = None" by code_simp
  from lookup_after_fetch[OF p e, of example_fmt ?url] obtain idx where
    run: "fetch_catalog example_fmt example_feed (init_indexer ?url)
            = Some (length (store_entries (feed_entries example_fmt (py_rstrip_slash ?url) example_feed 2) []),
                    [1..<Suc (Suc 2)], idx)"
    and m: "\<forall>s. lookup_sku idx s = last_with_key (lookup_sku_key s) ?es"
    by blast
  from run n have run': "fetch_catalog example_fmt example_feed (init_indexer ?url) = Some (2, [1, 2, 3], idx)"
    by (simp add: upt_conv_Cons)
  from m k1 k2 have a: "lookup_sku idx ''73302'' = lookup_sku idx ''073302''" by simp
  from m k2 l1 have b: "map_option vd_sku (lookup_sku idx ''073302'') = Some (JStr ''073302'')" by simp
  from m k2 l2 have c: "map_option vd_title (lookup_sku idx ''073302'') = Some (JStr ''Gadget'')" by simp
  from m k3 l3 have d: "map_option vd_sku (lookup_sku idx ''ABC-1'') = Some (JStr ''ABC-1'')" by simp
  from m k3 l4 have f: "map_option vd_title (lookup_sku idx ''ABC-1'') = Some (JStr ''Widget'')" by simp
  from m k4 l5 have g: "lookup_sku idx ''missing'' = None" by simp
  from run' a b c d f g show ?thesis by (intro exI[of _ idx] conjI)
qed




end
